theory Spec2Isabelle
  imports Complex_Main "HOL-Library.Sublist"
begin

section \<open>Python strings\<close>

text \<open>
  A Python \<open>str\<close> is modelled as a \<open>string\<close> (a list of \<open>char\<close>); a \<open>char\<close> stands for
  the code point of the same number, so the model covers the code points below 256.
  In that range \<open>str.isspace\<close> holds for the twelve characters listed in \<open>is_space\<close>,
  and the only decimal digits are \<open>0\<close> to \<open>9\<close>.
\<close>

abbreviation DQ :: char where "DQ \<equiv> CHR 0x22"

abbreviation BS :: char where "BS \<equiv> CHR 0x5C"

definition is_space :: "char \<Rightarrow> bool" where
  "is_space c \<longleftrightarrow>
     c \<in> {CHR 0x09, CHR 0x0A, CHR 0x0B, CHR 0x0C, CHR 0x0D, CHR 0x1C, CHR 0x1D, CHR 0x1E,
          CHR 0x1F, CHR 0x20, CHR 0x85, CHR 0xA0}"

definition is_digit :: "char \<Rightarrow> bool" where
  "is_digit c \<longleftrightarrow> c \<in> set ''0123456789''"

definition digit_value :: "char \<Rightarrow> nat" where
  "digit_value c = of_char c - 48"

definition digit_char :: "nat \<Rightarrow> char" where
  "digit_char n = char_of (48 + n)"

text \<open>\<open>s.lstrip()\<close>, \<open>s.rstrip()\<close>, \<open>s.strip()\<close>: whitespace removed at the ends.\<close>

definition lstrip :: "string \<Rightarrow> string" where
  "lstrip s = dropWhile is_space s"

definition rstrip :: "string \<Rightarrow> string" where
  "rstrip s = rev (dropWhile is_space (rev s))"

definition strip :: "string \<Rightarrow> string" where
  "strip s = rstrip (lstrip s)"

text \<open>\<open>s.lstrip(c)\<close> and \<open>s.rstrip(c)\<close> for a one-character argument: the whole run of
  \<open>c\<close> at that end is removed.\<close>

definition lstrip_char :: "char \<Rightarrow> string \<Rightarrow> string" where
  "lstrip_char c s = dropWhile (\<lambda>x. x = c) s"

definition rstrip_char :: "char \<Rightarrow> string \<Rightarrow> string" where
  "rstrip_char c s = rev (dropWhile (\<lambda>x. x = c) (rev s))"

text \<open>\<open>s.split(sep)\<close> for a one-character separator: never the empty list.\<close>

fun split_on :: "char \<Rightarrow> string \<Rightarrow> string list" where
  "split_on sep [] = [[]]"
| "split_on sep (c # cs) =
     (if c = sep then [] # split_on sep cs
      else (case split_on sep cs of p # ps \<Rightarrow> (c # p) # ps | [] \<Rightarrow> [[c]]))"

text \<open>\<open>s.split(sep, 1)\<close> for a one-character separator: at most one cut, at the first
  separator.\<close>

definition split_once :: "char \<Rightarrow> string \<Rightarrow> string list" where
  "split_once sep s =
     (if sep \<in> set s
      then [takeWhile (\<lambda>c. c \<noteq> sep) s, tl (dropWhile (\<lambda>c. c \<noteq> sep) s)]
      else [s])"

text \<open>\<open>s.partition(sep)\<close> for a one-character separator.\<close>

definition str_partition :: "char \<Rightarrow> string \<Rightarrow> string \<times> string \<times> string" where
  "str_partition sep s =
     (if sep \<in> set s
      then (takeWhile (\<lambda>c. c \<noteq> sep) s, [sep], tl (dropWhile (\<lambda>c. c \<noteq> sep) s))
      else (s, [], []))"

text \<open>\<open>s.split()\<close>: the maximal runs of non-whitespace characters.\<close>

function split_ws :: "string \<Rightarrow> string list" where
  "split_ws s =
     (let t = dropWhile is_space s
      in if t = [] then []
         else takeWhile (\<lambda>c. \<not> is_space c) t # split_ws (dropWhile (\<lambda>c. \<not> is_space c) t))"
  by pat_completeness auto
termination
proof (relation "measure length")
  show "wf (measure length)" by simp
next
  fix s t :: string
  assume t: "t = dropWhile is_space s" and ne: "t \<noteq> []"
  from ne obtain x xs where tx: "t = x # xs" by (cases t) auto
  have "\<not> is_space x" using t tx by (metis hd_dropWhile list.sel(1) ne)
  then have "dropWhile (\<lambda>c. \<not> is_space c) t = dropWhile (\<lambda>c. \<not> is_space c) xs"
    using tx by simp
  then have "length (dropWhile (\<lambda>c. \<not> is_space c) t) \<le> length xs"
    by (simp add: length_dropWhile_le)
  moreover have "length t \<le> length s" using t by (simp add: length_dropWhile_le)
  ultimately show "(dropWhile (\<lambda>c. \<not> is_space c) t, s) \<in> measure length"
    using tx by simp
qed

text \<open>\<open>sep.join(xs)\<close>.\<close>

fun join :: "string \<Rightarrow> string list \<Rightarrow> string" where
  "join sep [] = []"
| "join sep [x] = x"
| "join sep (x # y # ys) = x @ sep @ join sep (y # ys)"

text \<open>\<open>s.replace(old, new)\<close>: the occurrences of \<open>old\<close> are found from the left and do
  not overlap; an empty \<open>old\<close> matches before every character and at the end.\<close>

function replace :: "string \<Rightarrow> string \<Rightarrow> string \<Rightarrow> string" where
  "replace old new [] = (if old = [] then new else [])"
| "replace old new (c # cs) =
     (if old = [] then new @ c # replace old new cs
      else if prefix old (c # cs) then new @ replace old new (drop (length old) (c # cs))
      else c # replace old new cs)"
  by pat_completeness auto
termination
  by (relation "measure (\<lambda>(old, new, s). length s)") auto

section \<open>Errors and builtin conversions\<close>

datatype error = ValueError | IndexError

text \<open>\<open>xs[i]\<close> for a non-negative constant index.\<close>

definition getitem :: "'a list \<Rightarrow> nat \<Rightarrow> error + 'a" where
  "getitem xs i = (if i < length xs then Inr (xs ! i) else Inl IndexError)"

datatype pyval = VStr string | VInt int | VFloat real

text \<open>\<open>int(c)\<close> and \<open>float(c)\<close> for a string \<open>c\<close> of exactly one character, which is what
  indexing a \<open>str\<close> returns: both succeed on a decimal digit and raise \<open>ValueError\<close> on
  every other character (a sign, a dot or a blank alone is no literal).\<close>

definition py_int :: "char \<Rightarrow> error + pyval" where
  "py_int c = (if is_digit c then Inr (VInt (int (digit_value c))) else Inl ValueError)"

definition py_float :: "char \<Rightarrow> error + pyval" where
  "py_float c = (if is_digit c then Inr (VFloat (real (digit_value c))) else Inl ValueError)"

text \<open>\<open>str(n)\<close> for an integer.\<close>

function str_nat :: "nat \<Rightarrow> string" where
  "str_nat n = (if n < 10 then [digit_char n] else str_nat (n div 10) @ [digit_char (n mod 10)])"
  by pat_completeness auto
termination
  by (relation "measure id") auto

definition str_int :: "int \<Rightarrow> string" where
  "str_int i = (if i < 0 then CHR ''-'' # str_nat (nat (- i)) else str_nat (nat i))"

section \<open>statement.py\<close>

definition normalize_whitespace :: "string \<Rightarrow> string \<Rightarrow> string" where
  "normalize_whitespace text base_whitespace = strip (join base_whitespace (split_ws text))"

definition strip_terminating_semicolon :: "string \<Rightarrow> string" where
  "strip_terminating_semicolon sql = strip (rstrip_char CHR '';'' (strip sql))"

definition strip_double_quotes :: "string \<Rightarrow> string" where
  "strip_double_quotes sql =
     (let sql = rstrip_char DQ (strip sql)
      in strip (lstrip_char DQ (strip sql)))"

text \<open>The placeholder \<open>str(uuid4())\<close> is the first argument of the two escaping functions:
  the call draws it at random, so the result is a function of the placeholder and the
  text. \<open>is_uuid4_str\<close> is the shape of every string the draw can return.\<close>

definition is_hex :: "char \<Rightarrow> bool" where
  "is_hex c \<longleftrightarrow> c \<in> set ''0123456789abcdef''"

definition is_uuid4_str :: "string \<Rightarrow> bool" where
  "is_uuid4_str h \<longleftrightarrow>
     length h = 36 \<and>
     (\<forall>i < 36. if i \<in> {8, 13, 18, 23} then h ! i = CHR ''-'' else is_hex (h ! i)) \<and>
     h ! 14 = CHR ''4'' \<and> h ! 19 \<in> set ''89ab''"

definition escape_colon_for_sql :: "string \<Rightarrow> string \<Rightarrow> string" where
  "escape_colon_for_sql holder sql =
     (let sql = replace ''::'' holder sql;
          sql = replace '':'' [BS, CHR '':''] sql;
          sql = replace holder ''::'' sql
      in sql)"

definition escape_colon_for_plpgsql :: "string \<Rightarrow> string \<Rightarrow> string \<Rightarrow> string \<Rightarrow> string" where
  "escape_colon_for_plpgsql holder1 holder2 holder3 sql =
     (let sql = replace ''::'' holder1 sql;
          sql = replace '':='' holder2 sql;
          sql = replace [BS, CHR '':''] holder3 sql;
          sql = replace '':'' [BS, CHR '':''] sql;
          sql = replace holder3 [BS, CHR '':''] sql;
          sql = replace holder2 '':='' sql;
          sql = replace holder1 ''::'' sql
      in sql)"

datatype StorageParameter = Flag string | Pair string pyval

text \<open>\<open>f"{v}"\<close> for a parameter value; the text of a float is the parameter \<open>float_repr\<close>.\<close>

fun py_str :: "(real \<Rightarrow> string) \<Rightarrow> pyval \<Rightarrow> string" where
  "py_str float_repr (VStr s) = s"
| "py_str float_repr (VInt i) = str_int i"
| "py_str float_repr (VFloat x) = float_repr x"

fun render_param :: "(real \<Rightarrow> string) \<Rightarrow> StorageParameter \<Rightarrow> string" where
  "render_param float_repr (Flag param) = param"
| "render_param float_repr (Pair k v) = k @ ''='' @ py_str float_repr v"

definition format_storage_parameters_clause ::
    "(real \<Rightarrow> string) \<Rightarrow> StorageParameter list option \<Rightarrow> string" where
  "format_storage_parameters_clause float_repr storage_parameters =
     (case storage_parameters of
        None \<Rightarrow> []
      | Some ps \<Rightarrow>
          if length ps = 0 then []
          else '' WITH ('' @ join '', '' (map (render_param float_repr) ps) @ '')'')"

text \<open>The tuple \<open>(part[0], conv(part[1]))\<close>: the two index reads come first and raise
  \<open>IndexError\<close> on a part that is too short, then the conversion runs.\<close>

definition coerced_tuple :: "(char \<Rightarrow> error + pyval) \<Rightarrow> string \<Rightarrow> error + StorageParameter" where
  "coerced_tuple conv part =
     (case getitem part 0 of
        Inl e \<Rightarrow> Inl e
      | Inr c0 \<Rightarrow>
          (case getitem part 1 of
             Inl e \<Rightarrow> Inl e
           | Inr c1 \<Rightarrow> (case conv c1 of Inl e \<Rightarrow> Inl e | Inr v \<Rightarrow> Inr (Pair [c0] v))))"

text \<open>The body of the loop: the value appended for one part, or the exception that leaves
  the function. Only \<open>ValueError\<close> is caught by the two \<open>try\<close> blocks.\<close>

definition parse_part :: "string \<Rightarrow> error + StorageParameter" where
  "parse_part part =
     (if CHR ''='' \<in> set part then
        (let split_part = split_once CHR ''='' part
         in case getitem split_part 0 of
              Inl e \<Rightarrow> Inl e
            | Inr k \<Rightarrow>
                (case getitem split_part 1 of
                   Inl e \<Rightarrow> Inl e
                 | Inr v \<Rightarrow>
                     (let new_part = Pair (strip k) (VStr (strip v))
                      in case coerced_tuple py_int part of
                           Inl ValueError \<Rightarrow>
                             (case coerced_tuple py_float part of
                                Inl ValueError \<Rightarrow> Inr new_part
                              | r \<Rightarrow> r)
                         | r \<Rightarrow> r)))
      else Inr (Flag (strip part)))"

fun parse_parts :: "string list \<Rightarrow> error + StorageParameter list" where
  "parse_parts [] = Inr []"
| "parse_parts (part # parts) =
     (case parse_part part of
        Inl e \<Rightarrow> Inl e
      | Inr new_part \<Rightarrow>
          (case parse_parts parts of Inl e \<Rightarrow> Inl e | Inr params \<Rightarrow> Inr (new_part # params)))"

definition parse_storage_parameters :: "string \<Rightarrow> error + StorageParameter list" where
  "parse_storage_parameters storage_parameters =
     parse_parts (split_on CHR '','' storage_parameters)"

definition coerce_to_quoted :: "string \<Rightarrow> string" where
  "coerce_to_quoted text =
     (if CHR ''.'' \<in> set text then
        (case str_partition CHR ''.'' text of
           (schema, _, name) \<Rightarrow>
             [DQ] @ strip_double_quotes schema @ [DQ] @ ''.'' @ [DQ] @ strip_double_quotes name @ [DQ])
      else [DQ] @ strip_double_quotes text @ [DQ])"

definition coerce_to_unquoted :: "string \<Rightarrow> string" where
  "coerce_to_unquoted text = join [] (split_on DQ text)"

section \<open>Reference definitions, after the words of the specification\<close>

text \<open>A string without whitespace at either end.\<close>

definition trimmed :: "string \<Rightarrow> bool" where
  "trimmed s \<longleftrightarrow> (s \<noteq> [] \<longrightarrow> \<not> is_space (hd s) \<and> \<not> is_space (last s))"

text \<open>The specification's \<open>strip_double_quotes\<close>: at most one double quote is removed at
  each end, with whitespace trimmed around each removal.\<close>

definition drop_one_trailing :: "char \<Rightarrow> string \<Rightarrow> string" where
  "drop_one_trailing c s = (if s \<noteq> [] \<and> last s = c then butlast s else s)"

definition drop_one_leading :: "char \<Rightarrow> string \<Rightarrow> string" where
  "drop_one_leading c s = (case s of [] \<Rightarrow> [] | x # xs \<Rightarrow> if x = c then xs else s)"

definition strip_one_layer :: "string \<Rightarrow> string" where
  "strip_one_layer text =
     strip (drop_one_leading DQ (strip (drop_one_trailing DQ (strip text))))"

text \<open>The specification's \<open>coerce_to_quoted\<close>: the boundary is the first \<open>.\<close> outside
  double quotes; the scanner carries whether it is inside a quoted part.\<close>

fun first_unquoted_dot :: "bool \<Rightarrow> string \<Rightarrow> nat option" where
  "first_unquoted_dot inq [] = None"
| "first_unquoted_dot inq (c # cs) =
     (if c = DQ then map_option Suc (first_unquoted_dot (\<not> inq) cs)
      else if c = CHR ''.'' \<and> \<not> inq then Some 0
      else map_option Suc (first_unquoted_dot inq cs))"

definition coerce_to_quoted_structural :: "string \<Rightarrow> string" where
  "coerce_to_quoted_structural text =
     (case first_unquoted_dot False text of
        None \<Rightarrow> [DQ] @ strip_double_quotes text @ [DQ]
      | Some i \<Rightarrow>
          [DQ] @ strip_double_quotes (take i text) @ [DQ] @ ''.'' @
          [DQ] @ strip_double_quotes (drop (Suc i) text) @ [DQ])"

text \<open>The specification's \<open>escape_colon_for_sql\<close>, with no placeholder: the text is read
  from the left, a doubled colon is copied, every other colon gets a backslash.\<close>

fun escape_colon_spec :: "string \<Rightarrow> string" where
  "escape_colon_spec [] = []"
| "escape_colon_spec [c] = (if c = CHR '':'' then [BS, CHR '':''] else [c])"
| "escape_colon_spec (c # d # cs) =
     (if c = CHR '':'' \<and> d = CHR '':'' then c # d # escape_colon_spec cs
      else if c = CHR '':'' then BS # c # escape_colon_spec (d # cs)
      else c # escape_colon_spec (d # cs))"

text \<open>A placeholder that does not collide with the text: it has no colon and no backslash,
  it does not occur in the text, and no proper prefix \<open>w\<close> of it that is one of its periods
  stands right before a doubled colon (there \<open>w\<close> and the inserted placeholder would
  form an occurrence of the placeholder that starts too early).\<close>

definition holder_fresh :: "string \<Rightarrow> string \<Rightarrow> bool" where
  "holder_fresh holder sql \<longleftrightarrow>
     holder \<noteq> [] \<and> CHR '':'' \<notin> set holder \<and> BS \<notin> set holder \<and>
     \<not> sublist holder sql \<and>
     (\<forall>w \<in> set (prefixes holder).
        w \<noteq> [] \<and> w \<noteq> holder \<and> prefix holder (w @ holder) \<longrightarrow> \<not> sublist (w @ ''::'') sql)"

text \<open>The text of \<open>escape_colon_for_sql\<close> after its first two replacements.\<close>

definition protected_then_escaped :: "string \<Rightarrow> string \<Rightarrow> string" where
  "protected_then_escaped holder sql = replace '':'' [BS, CHR '':''] (replace ''::'' holder sql)"

text \<open>The specification's \<open>escape_colon_for_plpgsql\<close>, with the protected sequences kept
  out of band: the text is a list of tokens, a character or a marker. The doubled colons are
  protected first, then the assignments, then the colons that are already escaped; every
  colon still a character is escaped; the markers are written back as their sequences.\<close>

datatype marker = Cast | Assign | Escaped

datatype tok = Ch char | Mark marker

fun protect :: "char \<Rightarrow> char \<Rightarrow> marker \<Rightarrow> tok list \<Rightarrow> tok list" where
  "protect a b m [] = []"
| "protect a b m (Mark k # ts) = Mark k # protect a b m ts"
| "protect a b m [Ch x] = [Ch x]"
| "protect a b m (Ch x # Mark k # ts) = Ch x # Mark k # protect a b m ts"
| "protect a b m (Ch x # Ch y # ts) =
     (if x = a \<and> y = b then Mark m # protect a b m ts else Ch x # protect a b m (Ch y # ts))"

fun escape_tok :: "tok \<Rightarrow> tok list" where
  "escape_tok (Ch c) = (if c = CHR '':'' then [Ch BS, Ch c] else [Ch c])"
| "escape_tok (Mark m) = [Mark m]"

fun marker_text :: "marker \<Rightarrow> string" where
  "marker_text Cast = ''::''"
| "marker_text Assign = '':=''"
| "marker_text Escaped = [BS, CHR '':'']"

fun render_tok :: "(marker \<Rightarrow> string) \<Rightarrow> tok \<Rightarrow> string" where
  "render_tok \<rho> (Ch c) = [c]"
| "render_tok \<rho> (Mark m) = \<rho> m"

definition flat :: "(marker \<Rightarrow> string) \<Rightarrow> tok list \<Rightarrow> string" where
  "flat \<rho> ts = concat (map (render_tok \<rho>) ts)"

definition escape_colon_plpgsql_spec :: "string \<Rightarrow> string" where
  "escape_colon_plpgsql_spec sql =
     (let ts = protect CHR '':'' CHR '':'' Cast (map Ch sql);
          ts = protect CHR '':'' CHR ''='' Assign ts;
          ts = protect BS CHR '':'' Escaped ts;
          ts = concat (map escape_tok ts)
      in flat marker_text ts)"

text \<open>The frame of a UUID string: 36 characters, with a hyphen exactly at 8, 13, 18, 23.\<close>

definition uuid_frame :: "string \<Rightarrow> bool" where
  "uuid_frame h \<longleftrightarrow> length h = 36 \<and> (\<forall>i < 36. (h ! i = CHR ''-'') = (i \<in> {8, 13, 18, 23}))"

text \<open>The middle section of a UUID string: the sixteen characters from its first hyphen to
  its last, as in \<open>-9d4a-4f6b-8a2e-\<close>.\<close>

definition uuid_middle :: "string \<Rightarrow> string" where
  "uuid_middle h = take 16 (drop 8 h)"

text \<open>Three placeholders that do not collide with the text: three different UUID strings,
  none of whose middle sections occurs in the text.\<close>

definition placeholders_fresh :: "string \<Rightarrow> string \<Rightarrow> string \<Rightarrow> string \<Rightarrow> bool" where
  "placeholders_fresh holder1 holder2 holder3 sql \<longleftrightarrow>
     is_uuid4_str holder1 \<and> is_uuid4_str holder2 \<and> is_uuid4_str holder3 \<and>
     distinct [holder1, holder2, holder3] \<and>
     \<not> sublist (uuid_middle holder1) sql \<and>
     \<not> sublist (uuid_middle holder2) sql \<and>
     \<not> sublist (uuid_middle holder3) sql"

text \<open>The texts that stand for the three markers while the code runs.\<close>

fun holders :: "string \<Rightarrow> string \<Rightarrow> string \<Rightarrow> marker \<Rightarrow> string" where
  "holders h1 h2 h3 Cast = h1"
| "holders h1 h2 h3 Assign = h2"
| "holders h1 h2 h3 Escaped = h3"

text \<open>The parameters on which the round trip is stated: a bare flag, or a pair with a
  string value whose key is not empty and has no digit among its first two characters.\<close>

fun plain_param :: "StorageParameter \<Rightarrow> bool" where
  "plain_param (Flag name) = True"
| "plain_param (Pair k v) =
     ((case v of VStr s \<Rightarrow> True | _ \<Rightarrow> False) \<and> k \<noteq> [] \<and> (\<forall>c \<in> set (take 2 k). \<not> is_digit c))"

text \<open>What the parser guarantees of the names, keys and string values it returns.\<close>

fun wf_param :: "StorageParameter \<Rightarrow> bool" where
  "wf_param (Flag t) = (trimmed t \<and> CHR '','' \<notin> set t \<and> CHR ''='' \<notin> set t)"
| "wf_param (Pair k (VStr v)) =
     (trimmed k \<and> trimmed v \<and> CHR '','' \<notin> set k \<and> CHR '','' \<notin> set v \<and> CHR ''='' \<notin> set k)"
| "wf_param (Pair k v) = True"

text \<open>A text for floats, for parameter lists that hold none.\<close>

definition no_floats :: "real \<Rightarrow> string" where
  "no_floats x = []"

section \<open>Evaluation of the storage-parameter parser\<close>

lemmas parse_eval =
  parse_storage_parameters_def parse_part_def split_once_def getitem_def coerced_tuple_def
  py_int_def py_float_def is_digit_def strip_def lstrip_def rstrip_def is_space_def

text \<open>
  C1. The test of the repository expects, for the input
  \<open>param1, param2=80,param3='test',param4=80.5\<close>, the integer 80 for \<open>param2\<close> and the
  float 80.5 for \<open>param4\<close>. The code converts \<open>part[1]\<close>, the second character of the
  whole part (\<open>p\<close> for \<open>" param2=80"\<close>, \<open>a\<close> for the other two), instead of
  \<open>split_part[1]\<close>; both conversions raise \<open>ValueError\<close> and the values stay the strings
  \<open>80\<close> and \<open>80.5\<close>.
\<close>

theorem parse_storage_parameters_leaves_numbers_as_strings:
  "parse_storage_parameters ''param1, param2=80,param3='test',param4=80.5'' =
     Inr [Flag ''param1'',
          Pair ''param2'' (VStr ''80''),
          Pair ''param3'' (VStr (CHR 0x27 # ''test'' @ [CHR 0x27])),
          Pair ''param4'' (VStr ''80.5'')]"
  by (simp add: parse_eval)

text \<open>
  C2. The input \<open>=\<close> is one part that contains \<open>=\<close> and has length one, so \<open>part[1]\<close>
  raises \<open>IndexError\<close>, which neither \<open>except ValueError\<close> catches: the parser is not
  total.
\<close>

theorem parse_storage_parameters_raises_IndexError:
  "parse_storage_parameters ''='' = Inl IndexError"
  by (simp add: parse_eval)

text \<open>
  C10. The empty string splits into one empty part, which is a bare flag; the list is not
  empty, so the formatter writes the clause with nothing between the parentheses.
\<close>

theorem parse_empty_string_is_one_empty_flag:
  "parse_storage_parameters [] = Inr [Flag []] \<and>
   format_storage_parameters_clause float_repr (Some [Flag []]) = '' WITH ()''"
  by (simp add: parse_eval format_storage_parameters_clause_def)

section \<open>Whitespace and quote stripping\<close>

lemma rev_dropWhile_rev_id:
  "xs = [] \<or> \<not> P (last xs) \<Longrightarrow> rev (dropWhile P (rev xs)) = xs"
  by (cases xs rule: rev_cases) auto

lemma dropWhile_id: "xs = [] \<or> \<not> P (hd xs) \<Longrightarrow> dropWhile P xs = xs"
  by (cases xs) auto

lemma rev_dropWhile_rev_append_all:
  "\<forall>x \<in> set ys. P x \<Longrightarrow> rev (dropWhile P (rev (xs @ ys))) = rev (dropWhile P (rev xs))"
  using dropWhile_append2[of "rev ys" P "rev xs"] by simp

lemma rev_dropWhile_rev_append_keep:
  "ys \<noteq> [] \<Longrightarrow> \<not> P (last ys) \<Longrightarrow> rev (dropWhile P (rev (xs @ ys))) = xs @ ys"
  by (rule rev_dropWhile_rev_id) simp

lemma rev_dropWhile_rev_prefix: "prefix (rev (dropWhile P (rev xs))) xs"
proof -
  have "rev xs = takeWhile P (rev xs) @ dropWhile P (rev xs)" by simp
  then have "xs = rev (dropWhile P (rev xs)) @ rev (takeWhile P (rev xs))"
    by (metis rev_append rev_rev_ident)
  then show ?thesis by (metis prefixI)
qed

lemma trimmed_strip: "trimmed (strip s)"
proof -
  let ?d = "dropWhile is_space s"
  let ?r = "rev (dropWhile is_space (rev ?d))"
  have r: "strip s = ?r" by (simp add: strip_def lstrip_def rstrip_def)
  show ?thesis
  proof (cases "?r = []")
    case True then show ?thesis by (simp add: trimmed_def r)
  next
    case False
    have "prefix ?r ?d" by (rule rev_dropWhile_rev_prefix)
    then have "hd ?r = hd ?d" using False by (metis hd_append2 prefixE)
    moreover have "?d \<noteq> []"
    proof
      assume a: "?d = []"
      have "?r = []" unfolding a by simp
      with False show False by blast
    qed
    then have "\<not> is_space (hd ?d)" by (rule hd_dropWhile)
    moreover have "dropWhile is_space (rev ?d) \<noteq> []" using False by simp
    then have "\<not> is_space (hd (dropWhile is_space (rev ?d)))" by (rule hd_dropWhile)
    then have "\<not> is_space (last ?r)" using False by (simp add: last_rev)
    ultimately show ?thesis by (simp add: trimmed_def r)
  qed
qed

lemma strip_trimmed: "trimmed s \<Longrightarrow> strip s = s"
  unfolding trimmed_def strip_def lstrip_def rstrip_def
  by (cases "s = []") (simp_all add: dropWhile_id rev_dropWhile_rev_id)

lemma strip_strip: "strip (strip s) = strip s"
  by (simp add: strip_trimmed trimmed_strip)

lemma strip_append_space_left: "\<forall>c \<in> set w. is_space c \<Longrightarrow> strip (w @ s) = strip s"
  by (simp add: strip_def lstrip_def dropWhile_append2)

lemma rstrip_append_space: "\<forall>c \<in> set w. is_space c \<Longrightarrow> rstrip (s @ w) = rstrip s"
  unfolding rstrip_def by (rule rev_dropWhile_rev_append_all)

lemma strip_append_space_right:
  assumes w: "\<forall>c \<in> set w. is_space c"
  shows "strip (s @ w) = strip s"
proof (cases "\<forall>c \<in> set s. is_space c")
  case True
  then have "lstrip (s @ w) = []" "lstrip s = []" using w by (auto simp: lstrip_def)
  then show ?thesis by (simp only: strip_def)
next
  case False
  then have "lstrip (s @ w) = lstrip s @ w"
    by (auto simp: dropWhile_append lstrip_def)
  then show ?thesis using w by (simp only: strip_def rstrip_append_space)
qed

lemma set_strip: "set (strip s) \<subseteq> set s"
proof -
  have "set (rev (dropWhile is_space (rev (dropWhile is_space s)))) \<subseteq> set (dropWhile is_space s)"
    using set_dropWhileD by fastforce
  also have "\<dots> \<subseteq> set s" using set_dropWhileD by fast
  finally show ?thesis by (simp add: strip_def lstrip_def rstrip_def)
qed


lemma strip_core:
  assumes "\<forall>c \<in> set w. is_space c" "\<forall>c \<in> set w'. is_space c" "trimmed x"
  shows "strip (w @ x @ w') = x"
proof -
  have "strip (w @ x @ w') = strip (x @ w')" using assms(1) by (rule strip_append_space_left)
  also have "\<dots> = strip x" using assms(2) by (rule strip_append_space_right)
  finally show ?thesis using assms(3) by (simp add: strip_trimmed)
qed

lemma rstrip_char_replicate:
  "x = [] \<or> last x \<noteq> c \<Longrightarrow> rstrip_char c (x @ replicate n c) = x"
proof -
  assume x: "x = [] \<or> last x \<noteq> c"
  have "dropWhile (\<lambda>a. a = c) (rev (replicate n c) @ rev x) = dropWhile (\<lambda>a. a = c) (rev x)"
    by (rule dropWhile_append2) simp
  then have "rstrip_char c (x @ replicate n c) = rev (dropWhile (\<lambda>a. a = c) (rev x))"
    by (simp add: rstrip_char_def)
  also have "\<dots> = x" using x by (rule rev_dropWhile_rev_id)
  finally show ?thesis .
qed

lemma lstrip_char_replicate:
  "x = [] \<or> hd x \<noteq> c \<Longrightarrow> lstrip_char c (replicate m c @ x) = x"
proof -
  assume x: "x = [] \<or> hd x \<noteq> c"
  have "dropWhile (\<lambda>a. a = c) (replicate m c @ x) = dropWhile (\<lambda>a. a = c) x"
    by (rule dropWhile_append2) simp
  also have "\<dots> = x" using x by (rule dropWhile_id)
  finally show ?thesis by (simp add: lstrip_char_def)
qed

lemma not_space_DQ: "\<not> is_space DQ"
  by (simp add: is_space_def)

lemma strip_trailing_quote_run:
  assumes w3: "\<forall>c \<in> set w3. is_space c" and w4: "\<forall>c \<in> set w4. is_space c"
    and y: "y \<noteq> []" "\<not> is_space (hd y)" "\<not> is_space (last y)" "last y \<noteq> DQ"
  shows "strip (rstrip_char DQ (strip (y @ w3 @ replicate n DQ @ w4))) = y"
proof (cases "n = 0")
  case True
  have ty: "trimmed y" using y by (simp add: trimmed_def)
  have "strip (y @ w3 @ replicate n DQ @ w4) = strip ([] @ y @ (w3 @ w4))" using True by simp
  also have "\<dots> = y" using w3 w4 ty by (intro strip_core) auto
  finally have "strip (y @ w3 @ replicate n DQ @ w4) = y" .
  moreover have "rstrip_char DQ y = y" using y rstrip_char_replicate[of y DQ 0] by simp
  ultimately show ?thesis using ty by (simp add: strip_trimmed)
next
  case False
  let ?z = "y @ w3 @ replicate n DQ"
  have lz: "last ?z = DQ" using False by simp
  have hz: "hd ?z = hd y" using y by simp
  have tz: "trimmed ?z" unfolding trimmed_def using lz hz y not_space_DQ by metis
  have "strip (y @ w3 @ replicate n DQ @ w4) = strip ([] @ ?z @ w4)" by simp
  also have "\<dots> = ?z" using w4 tz by (intro strip_core) auto
  finally have 1: "strip (y @ w3 @ replicate n DQ @ w4) = (y @ w3) @ replicate n DQ" by simp
  have "last (y @ w3) \<noteq> DQ"
  proof (cases "w3 = []")
    case True then show ?thesis using y by simp
  next
    case False
    then have "is_space (last (y @ w3))" using w3 by simp
    then show ?thesis using not_space_DQ by metis
  qed
  then have 2: "rstrip_char DQ ((y @ w3) @ replicate n DQ) = y @ w3"
    by (intro rstrip_char_replicate) simp
  have "strip (y @ w3) = strip ([] @ y @ w3)" by simp
  also have "\<dots> = y" using w3 y by (intro strip_core) (auto simp: trimmed_def)
  finally show ?thesis using 1 2 by simp
qed

text \<open>
  C8, as amended. \<open>rstrip('"')\<close> and \<open>lstrip('"')\<close> remove the whole run of double quotes at
  their end, not one quote: around a non-empty core \<open>t\<close> that neither starts nor ends with
  whitespace or a double quote, any number \<open>m\<close> of leading and \<open>n\<close> of trailing quotes
  disappears, with the whitespace \<open>w1\<close>, \<open>w2\<close>, \<open>w3\<close>, \<open>w4\<close> around each run.
\<close>

theorem strip_double_quotes_runs:
  assumes w1: "\<forall>c \<in> set w1. is_space c" and w2: "\<forall>c \<in> set w2. is_space c"
    and w3: "\<forall>c \<in> set w3. is_space c" and w4: "\<forall>c \<in> set w4. is_space c"
    and t: "t \<noteq> []" "\<not> is_space (hd t)" "hd t \<noteq> DQ" "\<not> is_space (last t)" "last t \<noteq> DQ"
  shows "strip_double_quotes (w1 @ replicate m DQ @ w2 @ t @ w3 @ replicate n DQ @ w4) = t"
proof -
  let ?s = "w1 @ replicate m DQ @ w2 @ t @ w3 @ replicate n DQ @ w4"
  have tt: "trimmed t" using t by (simp add: trimmed_def)
  have sdq: "strip_double_quotes ?s = strip (lstrip_char DQ (strip (rstrip_char DQ (strip ?s))))"
    by (simp add: strip_double_quotes_def)
  show ?thesis
  proof (cases "m = 0")
    case True
    have "strip ?s = strip (t @ w3 @ replicate n DQ @ w4)"
      using strip_append_space_left[of "w1 @ w2" "t @ w3 @ replicate n DQ @ w4"] w1 w2 True
      by auto
    then have "strip (rstrip_char DQ (strip ?s)) = t"
      using strip_trailing_quote_run[OF w3 w4 t(1,2,4,5)] by simp
    moreover have "lstrip_char DQ t = t" using lstrip_char_replicate[of t DQ 0] t by simp
    ultimately show ?thesis using tt by (simp add: sdq strip_trimmed)
  next
    case False
    let ?y = "replicate m DQ @ w2 @ t"
    have y: "?y \<noteq> []" "\<not> is_space (hd ?y)" "\<not> is_space (last ?y)" "last ?y \<noteq> DQ"
      using False t not_space_DQ by (auto simp: hd_append)
    have "strip ?s = strip (?y @ w3 @ replicate n DQ @ w4)"
      using strip_append_space_left[OF w1, of "?y @ w3 @ replicate n DQ @ w4"] by simp
    then have "strip (rstrip_char DQ (strip ?s)) = ?y"
      using strip_trailing_quote_run[OF w3 w4 y] by simp
    moreover have "lstrip_char DQ ?y = w2 @ t"
    proof (rule lstrip_char_replicate)
      show "w2 @ t = [] \<or> hd (w2 @ t) \<noteq> DQ"
        using w2 t not_space_DQ by (cases w2) auto
    qed
    moreover have "strip (w2 @ t) = t"
      using strip_core[OF w2 _ tt, of "[]"] by simp
    ultimately show ?thesis by (simp add: sdq)
  qed
qed

text \<open>
  C9, as amended. The result of \<open>strip_double_quotes\<close> is a fixed point of the function
  whenever it neither starts nor ends with a double quote.
\<close>

theorem strip_double_quotes_fixed:
  assumes "strip_double_quotes s \<noteq> [] \<longrightarrow>
           hd (strip_double_quotes s) \<noteq> DQ \<and> last (strip_double_quotes s) \<noteq> DQ"
  shows "strip_double_quotes (strip_double_quotes s) = strip_double_quotes s"
proof -
  let ?r = "strip_double_quotes s"
  have tr: "trimmed ?r" by (simp add: strip_double_quotes_def trimmed_strip)
  have 1: "strip ?r = ?r" using tr by (rule strip_trimmed)
  have 2: "rstrip_char DQ ?r = ?r" using rstrip_char_replicate[of ?r DQ 0] assms by auto
  have 3: "lstrip_char DQ ?r = ?r" using lstrip_char_replicate[of ?r DQ 0] assms by auto
  have "strip_double_quotes ?r = strip (lstrip_char DQ (strip (rstrip_char DQ (strip ?r))))"
    by (simp add: strip_double_quotes_def)
  then show ?thesis by (simp only: 1 2 3)
qed

lemmas sdq_eval = strip_double_quotes_def strip_def lstrip_def rstrip_def is_space_def
  lstrip_char_def rstrip_char_def

theorem strip_double_quotes_fixed_witness:
  "strip_double_quotes (strip_double_quotes (DQ # ''a'' @ [DQ])) = strip_double_quotes (DQ # ''a'' @ [DQ])"
  using strip_double_quotes_fixed[of "DQ # ''a'' @ [DQ]"] by (simp add: sdq_eval)

theorem strip_double_quotes_runs_witness:
  "strip_double_quotes ('' '' @ replicate 2 DQ @ '' '' @ ''a b'' @ [] @ replicate 3 DQ @ '' '') = ''a b''"
  using strip_double_quotes_runs[of "'' ''" "'' ''" "[]" "'' ''" "''a b''" 2 3]
  by (simp add: is_space_def)

lemma takeWhile_neq_append: "c \<notin> set a \<Longrightarrow> takeWhile (\<lambda>x. x \<noteq> c) (a @ c # b) = a"
  by (induction a) auto

lemma dropWhile_neq_append: "c \<notin> set a \<Longrightarrow> dropWhile (\<lambda>x. x \<noteq> c) (a @ c # b) = c # b"
  by (induction a) auto

text \<open>
  C7, as amended. \<open>coerce_to_quoted\<close> cuts at the first \<open>.\<close> of the text, inside double
  quotes or not: with no \<open>.\<close> in \<open>a\<close>, the text \<open>a.b\<close> gives the quoted
  \<open>strip_double_quotes a\<close>, a dot, and the quoted \<open>strip_double_quotes b\<close>.
\<close>

theorem coerce_to_quoted_first_dot:
  assumes "CHR ''.'' \<notin> set a"
  shows "coerce_to_quoted (a @ ''.'' @ b) =
         [DQ] @ strip_double_quotes a @ [DQ] @ ''.'' @ [DQ] @ strip_double_quotes b @ [DQ]"
proof -
  have "takeWhile (\<lambda>c. c \<noteq> CHR ''.'') (a @ CHR ''.'' # b) = a"
    using assms by (rule takeWhile_neq_append)
  moreover have "dropWhile (\<lambda>c. c \<noteq> CHR ''.'') (a @ CHR ''.'' # b) = CHR ''.'' # b"
    using assms by (rule dropWhile_neq_append)
  ultimately show ?thesis by (simp add: coerce_to_quoted_def str_partition_def)
qed

theorem coerce_to_quoted_first_dot_witness:
  "coerce_to_quoted ((DQ # ''my'') @ ''.'' @ (''schema'' @ [DQ])) =
     [DQ] @ ''my'' @ [DQ] @ ''.'' @ [DQ] @ ''schema'' @ [DQ]"
  using coerce_to_quoted_first_dot[of "DQ # ''my''" "''schema'' @ [DQ]"]
  by (simp add: sdq_eval)

text \<open>
  C8, as stated, fails: of two leading and two trailing double quotes none is kept, where
  removing one layer keeps the inner pair.
\<close>

theorem strip_double_quotes_removes_two_layers:
  "strip_double_quotes ([DQ, DQ] @ ''a'' @ [DQ, DQ]) = ''a'' \<and>
   strip_one_layer ([DQ, DQ] @ ''a'' @ [DQ, DQ]) = [DQ] @ ''a'' @ [DQ]"
  by (simp add: sdq_eval strip_one_layer_def drop_one_trailing_def drop_one_leading_def)

text \<open>
  C9, as stated, fails: on \<open>a" "\<close> the first application removes the last quote and the
  blank before it, and the second application removes the quote that the first one left.
\<close>

theorem strip_double_quotes_not_idempotent:
  "strip_double_quotes (''a'' @ [DQ] @ '' '' @ [DQ]) = ''a'' @ [DQ] \<and>
   strip_double_quotes (strip_double_quotes (''a'' @ [DQ] @ '' '' @ [DQ])) = ''a''"
  by (simp add: sdq_eval)

text \<open>
  C7, as stated, fails: the dot of \<open>"my.schema"\<close> lies inside the quotes, and the code cuts
  there, where a cut outside quotes only leaves the name whole.
\<close>

theorem coerce_to_quoted_splits_inside_quotes:
  "coerce_to_quoted (DQ # ''my.schema'' @ [DQ]) =
     [DQ] @ ''my'' @ [DQ] @ ''.'' @ [DQ] @ ''schema'' @ [DQ] \<and>
   coerce_to_quoted_structural (DQ # ''my.schema'' @ [DQ]) = DQ # ''my.schema'' @ [DQ]"
  by (simp add: coerce_to_quoted_def str_partition_def coerce_to_quoted_structural_def sdq_eval)

section \<open>Escaping colons with one placeholder\<close>

lemma replace_char:
  "replace [c] new s = concat (map (\<lambda>x. if x = c then new else [x]) s)"
  by (induction s) auto

lemma replace_char_append:
  "replace [c] new (xs @ ys) = replace [c] new xs @ replace [c] new ys"
  by (simp add: replace_char)

lemma replace_char_absent: "c \<notin> set xs \<Longrightarrow> replace [c] new xs = xs"
  by (induction xs) auto

lemma replace_at_occurrence:
  "old \<noteq> [] \<Longrightarrow> replace old new (old @ s) = new @ replace old new s"
  by (cases old) auto

lemma replace_skip:
  "old \<noteq> [] \<Longrightarrow> \<forall>k < length u. \<not> prefix old (drop k u @ s) \<Longrightarrow>
   replace old new (u @ s) = u @ replace old new s"
proof (induction u)
  case Nil
  then show ?case by simp
next
  case (Cons x u)
  have "\<not> prefix old (x # u @ s)" using Cons.prems(2) by force
  moreover have "\<forall>k < length u. \<not> prefix old (drop k u @ s)"
    using Cons.prems(2) by force
  ultimately show ?case using Cons by simp
qed

lemma pte_Nil: "protected_then_escaped h [] = []"
  by (simp add: protected_then_escaped_def)

lemma pte_single:
  "protected_then_escaped h [c] = (if c = CHR '':'' then [BS, CHR '':''] else [c])"
  by (simp add: protected_then_escaped_def)

lemma pte_double:
  "CHR '':'' \<notin> set h \<Longrightarrow>
   protected_then_escaped h (CHR '':'' # CHR '':'' # cs) = h @ protected_then_escaped h cs"
  by (simp add: protected_then_escaped_def replace_char_append replace_char_absent)

lemma pte_colon:
  "d \<noteq> CHR '':'' \<Longrightarrow>
   protected_then_escaped h (CHR '':'' # d # cs) = BS # CHR '':'' # protected_then_escaped h (d # cs)"
  by (simp add: protected_then_escaped_def)

lemma pte_other:
  "c \<noteq> CHR '':'' \<Longrightarrow> protected_then_escaped h (c # cs) = c # protected_then_escaped h cs"
  by (simp add: protected_then_escaped_def)

lemma prefix_protected_then_escaped:
  assumes h: "CHR '':'' \<notin> set h"
  shows "x \<noteq> [] \<Longrightarrow> CHR '':'' \<notin> set x \<Longrightarrow> BS \<notin> set x \<Longrightarrow>
         prefix x (protected_then_escaped h t) \<Longrightarrow>
         prefix x t \<or> (\<exists>w r. strict_prefix w x \<and> prefix (w @ ''::'') t \<and> prefix x (w @ h @ r))"
proof (induction t arbitrary: x rule: escape_colon_spec.induct)
  case 1
  then show ?case by (simp add: pte_Nil)
next
  case (2 c)
  then show ?case by (cases x) (auto simp: pte_single split: if_splits)
next
  case (3 c d cs)
  show ?case
  proof (cases "c = CHR '':''")
    case True
    show ?thesis
    proof (cases "d = CHR '':''")
      case d: True
      have "strict_prefix [] x" using "3.prems"(1) by (simp add: strict_prefix_def)
      moreover have "prefix ([] @ ''::'') (c # d # cs)" using True d by simp
      moreover have "prefix x ([] @ h @ protected_then_escaped h cs)"
        using "3.prems"(4) True d h by (simp add: pte_double)
      ultimately show ?thesis by blast
    next
      case False
      then have "prefix x (BS # CHR '':'' # protected_then_escaped h (d # cs))"
        using "3.prems"(4) True by (simp add: pte_colon)
      then show ?thesis using "3.prems"(1,3) by (cases x) auto
    qed
  next
    case False
    then have p: "prefix x (c # protected_then_escaped h (d # cs))"
      using "3.prems"(4) by (simp add: pte_other)
    then obtain x' where x: "x = c # x'" and p': "prefix x' (protected_then_escaped h (d # cs))"
      using "3.prems"(1) by (cases x) auto
    show ?thesis
    proof (cases "x' = []")
      case True
      then show ?thesis using x by simp
    next
      case ne: False
      have "prefix x' (d # cs) \<or>
            (\<exists>w r. strict_prefix w x' \<and> prefix (w @ ''::'') (d # cs) \<and> prefix x' (w @ h @ r))"
        using "3.IH"(3)[of x'] False ne "3.prems"(2,3) p' x by auto
      then show ?thesis
      proof
        assume "prefix x' (d # cs)"
        then show ?thesis using x by simp
      next
        assume "\<exists>w r. strict_prefix w x' \<and> prefix (w @ ''::'') (d # cs) \<and> prefix x' (w @ h @ r)"
        then obtain w r where "strict_prefix w x'" "prefix (w @ ''::'') (d # cs)"
          "prefix x' (w @ h @ r)" by blast
        then have "strict_prefix (c # w) x \<and> prefix ((c # w) @ ''::'') (c # d # cs) \<and>
                   prefix x ((c # w) @ h @ r)"
          using x by (auto simp: strict_prefix_def)
        then show ?thesis by blast
      qed
    qed
  qed
qed

lemma fresh_no_rogue:
  assumes f: "holder_fresh h sql" and t: "suffix t sql" "t \<noteq> []" "hd t \<noteq> CHR '':''"
  shows "\<not> prefix h (protected_then_escaped h t)"
proof
  assume p: "prefix h (protected_then_escaped h t)"
  have h: "h \<noteq> []" "CHR '':'' \<notin> set h" "BS \<notin> set h" using f by (auto simp: holder_fresh_def)
  from prefix_protected_then_escaped[OF h(2) h(1) h(2) h(3) p]
  show False
  proof
    assume "prefix h t"
    then have "sublist h sql" using t(1) by (auto simp: sublist_altdef')
    then show False using f by (simp add: holder_fresh_def)
  next
    assume "\<exists>w r. strict_prefix w h \<and> prefix (w @ ''::'') t \<and> prefix h (w @ h @ r)"
    then obtain w r where w: "strict_prefix w h" "prefix (w @ ''::'') t" "prefix h (w @ h @ r)"
      by blast
    have "w \<noteq> []" using w(2) t(2,3) by (cases t) auto
    moreover have "w \<noteq> h" "prefix w h" using w(1) by (auto simp: strict_prefix_def)
    moreover have "prefix h (w @ h)"
    proof (rule prefix_length_prefix[OF w(3)])
      show "prefix (w @ h) (w @ h @ r)" by simp
      show "length h \<le> length (w @ h)" by simp
    qed
    moreover have "sublist (w @ ''::'') sql" using w(2) t(1) by (auto simp: sublist_altdef')
    ultimately show False using f by (auto simp: holder_fresh_def)
  qed
qed

lemma restore_protected:
  assumes f: "holder_fresh h sql"
  shows "suffix t sql \<Longrightarrow> replace h ''::'' (protected_then_escaped h t) = escape_colon_spec t"
proof (induction t rule: escape_colon_spec.induct)
  case 1
  then show ?case using f by (simp add: pte_Nil holder_fresh_def)
next
  case (2 c)
  have h: "h \<noteq> []" "CHR '':'' \<notin> set h" "BS \<notin> set h" using f by (auto simp: holder_fresh_def)
  show ?case
  proof (cases "c = CHR '':''")
    case True
    have "\<not> prefix h [BS, CHR '':'']" "\<not> prefix h [CHR '':'']" using h by (cases h; auto)+
    then show ?thesis using True h by (simp add: pte_single)
  next
    case False
    then have "\<not> prefix h [c]" using fresh_no_rogue[OF f "2.prems"] by (simp add: pte_single)
    then show ?thesis using False h by (simp add: pte_single)
  qed
next
  case (3 c d cs)
  have h: "h \<noteq> []" "CHR '':'' \<notin> set h" "BS \<notin> set h" using f by (auto simp: holder_fresh_def)
  have s1: "suffix (d # cs) sql" using "3.prems" by (rule suffix_ConsD)
  then have s2: "suffix cs sql" by (rule suffix_ConsD)
  show ?case
  proof (cases "c = CHR '':''")
    case True
    show ?thesis
    proof (cases "d = CHR '':''")
      case d: True
      then show ?thesis using True h "3.IH"(1) s2
        by (simp add: pte_double replace_at_occurrence)
    next
      case False
      let ?r = "protected_then_escaped h (d # cs)"
      have "\<not> prefix h (BS # CHR '':'' # ?r)" "\<not> prefix h (CHR '':'' # ?r)"
        using h by (cases h; auto)+
      then show ?thesis using True False h "3.IH"(2) s1 by (simp add: pte_colon)
    qed
  next
    case False
    let ?r = "protected_then_escaped h (d # cs)"
    have "\<not> prefix h (c # ?r)" using fresh_no_rogue[OF f "3.prems"] False by (simp add: pte_other)
    then show ?thesis using False h "3.IH"(3) s1 by (simp add: pte_other)
  qed
qed

lemma escape_colon_for_sql_refines:
  "holder_fresh holder sql \<Longrightarrow> escape_colon_for_sql holder sql = escape_colon_spec sql"
  using restore_protected[of holder sql sql]
  by (simp add: escape_colon_for_sql_def protected_then_escaped_def)

lemmas uuid4_eval = is_uuid4_str_def is_hex_def All_less_Suc2 numeral_eq_Suc

text \<open>
  C4, as amended. Whenever the placeholder drawn by the call does not collide with the text
  (\<open>holder_fresh\<close>), \<open>escape_colon_for_sql\<close> returns what the placeholder-free reading
  returns: every doubled colon is copied unchanged and every other colon gets exactly one
  backslash.
\<close>

theorem escape_colon_for_sql_escapes_single_colons:
  assumes "holder_fresh holder sql"
  shows "escape_colon_for_sql holder sql = escape_colon_spec sql"
  using assms by (rule escape_colon_for_sql_refines)

theorem escape_colon_for_sql_escapes_single_colons_witness:
  "holder_fresh ''3f2b8c1e-9d4a-4f6b-8a2e-5c7d9e1f0a3b''
     ''select 'https://my-site.io/a'::text, :name'' \<and>
   escape_colon_for_sql ''3f2b8c1e-9d4a-4f6b-8a2e-5c7d9e1f0a3b''
     ''select 'https://my-site.io/a'::text, :name'' =
   ''select 'https'' @ [BS] @ ''://my-site.io/a'::text, '' @ [BS] @ '':name''"
proof -
  have f: "holder_fresh ''3f2b8c1e-9d4a-4f6b-8a2e-5c7d9e1f0a3b''
             ''select 'https://my-site.io/a'::text, :name''"
    by code_simp
  show ?thesis
    using f escape_colon_for_sql_escapes_single_colons[OF f] by simp
qed

text \<open>
  C4, as stated, fails: the placeholder is random and unchecked. Here the drawn
  placeholder does not occur in the text, yet the text before the cast and the start of the
  placeholder written for the cast form the placeholder: the cast comes back at the
  beginning of the text.
\<close>

theorem escape_colon_for_sql_moves_cast:
  "is_uuid4_str ''aaaaaaaa-bbbb-4bbb-8bbb-ccccaaaaaaaa'' \<and>
   \<not> sublist ''aaaaaaaa-bbbb-4bbb-8bbb-ccccaaaaaaaa'' ''aaaaaaaa-bbbb-4bbb-8bbb-cccc::int'' \<and>
   escape_colon_for_sql ''aaaaaaaa-bbbb-4bbb-8bbb-ccccaaaaaaaa''
     ''aaaaaaaa-bbbb-4bbb-8bbb-cccc::int'' = ''::-bbbb-4bbb-8bbb-ccccaaaaaaaaint'' \<and>
   escape_colon_spec ''aaaaaaaa-bbbb-4bbb-8bbb-cccc::int'' = ''aaaaaaaa-bbbb-4bbb-8bbb-cccc::int''"
proof -
  have "\<not> sublist ''aaaaaaaa-bbbb-4bbb-8bbb-ccccaaaaaaaa'' ''aaaaaaaa-bbbb-4bbb-8bbb-cccc::int''"
    by code_simp
  then show ?thesis by (simp add: uuid4_eval escape_colon_for_sql_def)
qed

section \<open>Escaping colons with three placeholders\<close>

lemma flat_simps [simp]:
  "flat \<rho> [] = []" "flat \<rho> (t # ts) = render_tok \<rho> t @ flat \<rho> ts"
  "flat \<rho> (ts @ us) = flat \<rho> ts @ flat \<rho> us"
  by (simp_all add: flat_def)

lemma replace_skip_head:
  "a \<notin> set u \<Longrightarrow> replace (a # old) new (u @ s) = u @ replace (a # old) new s"
  by (induction u) auto

lemma replace_no_match:
  "old \<noteq> [] \<Longrightarrow> \<not> prefix old (c # cs) \<Longrightarrow> replace old new (c # cs) = c # replace old new cs"
  by simp

lemma protect_flat:
  "\<forall>k. \<rho> k \<noteq> [] \<and> a \<notin> set (\<rho> k) \<and> b \<notin> set (\<rho> k) \<Longrightarrow>
   replace [a, b] (\<rho> m) (flat \<rho> ts) = flat \<rho> (protect a b m ts)"
proof (induction a b m ts rule: protect.induct)
  case (1 a b m)
  then show ?case by simp
next
  case (2 a b m k ts)
  have "a \<notin> set (\<rho> k)" using "2.prems" by simp
  then have "replace [a, b] (\<rho> m) (\<rho> k @ flat \<rho> ts) = \<rho> k @ replace [a, b] (\<rho> m) (flat \<rho> ts)"
    by (rule replace_skip_head)
  also have "replace [a, b] (\<rho> m) (flat \<rho> ts) = flat \<rho> (protect a b m ts)"
    using 2 by simp
  finally show ?case by simp
next
  case (3 a b m x)
  then show ?case by simp
next
  case (4 a b m x k ts)
  have k: "\<rho> k \<noteq> []" "b \<notin> set (\<rho> k)" using "4.prems" by auto
  then obtain y ys where y: "\<rho> k = y # ys" "y \<noteq> b" by (cases "\<rho> k") auto
  have np: "\<not> prefix [a, b] (x # \<rho> k @ flat \<rho> ts)" using y by simp
  have "replace [a, b] (\<rho> m) (x # \<rho> k @ flat \<rho> ts) =
        x # replace [a, b] (\<rho> m) (\<rho> k @ flat \<rho> ts)"
    by (rule replace_no_match) (simp, rule np)
  moreover have "replace [a, b] (\<rho> m) (\<rho> k @ flat \<rho> ts) =
                 \<rho> k @ replace [a, b] (\<rho> m) (flat \<rho> ts)"
    using "4.prems" by (intro replace_skip_head) simp
  moreover have "replace [a, b] (\<rho> m) (flat \<rho> ts) = flat \<rho> (protect a b m ts)"
    using 4 by simp
  ultimately show ?case by simp
next
  case (5 a b m x y ts)
  then show ?case by auto
qed

lemma escape_flat:
  "\<forall>k. CHR '':'' \<notin> set (\<rho> k) \<Longrightarrow>
   replace '':'' [BS, CHR '':''] (flat \<rho> ts) = flat \<rho> (concat (map escape_tok ts))"
proof (induction ts)
  case Nil
  then show ?case by simp
next
  case (Cons t ts)
  then show ?case
    by (cases t) (auto simp: replace_char_append replace_char_absent)
qed

lemma restore_flat:
  assumes h: "h \<noteq> []" "\<rho> m = h" and r: "\<rho>' m = new" "\<forall>k. k \<noteq> m \<longrightarrow> \<rho>' k = \<rho> k"
  shows "(\<And>pre t post j. ts = pre @ t # post \<Longrightarrow> j < length (render_tok \<rho> t) \<Longrightarrow>
             prefix h (drop j (render_tok \<rho> t) @ flat \<rho> post) \<Longrightarrow> t = Mark m \<and> j = 0) \<Longrightarrow>
         replace h new (flat \<rho> ts) = flat \<rho>' ts"
proof (induction ts)
  case Nil
  then show ?case using h by simp
next
  case (Cons t ts)
  have tail: "replace h new (flat \<rho> ts) = flat \<rho>' ts"
  proof (rule Cons.IH)
    fix pre t' post j
    assume "ts = pre @ t' # post" "j < length (render_tok \<rho> t')"
      "prefix h (drop j (render_tok \<rho> t') @ flat \<rho> post)"
    then show "t' = Mark m \<and> j = 0" using Cons.prems[of "t # pre" t' post j] by simp
  qed
  show ?case
  proof (cases "t = Mark m")
    case True
    have "replace h new (h @ flat \<rho> ts) = new @ replace h new (flat \<rho> ts)"
      using h(1) by (rule replace_at_occurrence)
    then show ?thesis using True h(2) r(1) tail by simp
  next
    case False
    have "\<forall>j < length (render_tok \<rho> t). \<not> prefix h (drop j (render_tok \<rho> t) @ flat \<rho> ts)"
      using Cons.prems[of "[]" t ts] False by auto
    then have "replace h new (render_tok \<rho> t @ flat \<rho> ts) =
               render_tok \<rho> t @ replace h new (flat \<rho> ts)"
      using h(1) by (intro replace_skip) auto
    moreover have "render_tok \<rho>' t = render_tok \<rho> t" using False r(2) by (cases t) auto
    ultimately show ?thesis using tail by simp
  qed
qed

lemma flat_map_Ch: "flat \<rho> (map Ch s) = s"
  by (induction s) auto

lemma sublist_map: "sublist xs ys \<Longrightarrow> sublist (map f xs) (map f ys)"
proof -
  assume "sublist xs ys"
  then obtain ps ss where "ys = ps @ xs @ ss" by (auto simp: sublist_def)
  then have "map f ys = map f ps @ map f xs @ map f ss" by simp
  then show ?thesis unfolding sublist_def by blast
qed

lemma sublist_map_Ch: "sublist (map Ch w) (map Ch s) \<Longrightarrow> sublist w s"
proof -
  assume "sublist (map Ch w) (map Ch s)"
  then obtain ps ss where "map Ch s = ps @ map Ch w @ ss" by (auto simp: sublist_def)
  then obtain us vs where s: "s = us @ vs" and "map Ch w @ ss = map Ch vs"
    by (auto simp: map_eq_append_conv)
  then obtain w' ss' where v: "vs = w' @ ss'" and e: "map Ch w = map Ch w'"
    by (auto simp: append_eq_map_conv)
  have "inj Ch" by (simp add: inj_on_def)
  then have "w = w'" using e by (simp add: inj_map_eq_map)
  then show ?thesis using s v by (auto simp: sublist_def)
qed


lemma prefix_Ch_protect:
  "prefix (map Ch w) (protect a b m ts) \<Longrightarrow> prefix (map Ch w) ts"
proof (induction a b m ts arbitrary: w rule: protect.induct)
  case (1 a b m)
  then show ?case by simp
next
  case (2 a b m k ts)
  then show ?case by (cases w) auto
next
  case (3 a b m x)
  then show ?case by simp
next
  case (4 a b m x k ts)
  then show ?case by (cases w; cases "tl w") auto
next
  case (5 a b m x y ts)
  show ?case
  proof (cases w)
    case Nil
    then show ?thesis by simp
  next
    case (Cons c w')
    then show ?thesis using 5 by (auto split: if_splits)
  qed
qed

lemma sublist_Ch_protect:
  "sublist (map Ch w) (protect a b m ts) \<Longrightarrow> sublist (map Ch w) ts"
proof (induction a b m ts rule: protect.induct)
  case (1 a b m)
  then show ?case by simp
next
  case (2 a b m k ts)
  from "2.prems" have "prefix (map Ch w) (protect a b m (Mark k # ts)) \<or>
      sublist (map Ch w) (protect a b m ts)"
    by (simp add: sublist_Cons_right)
  then show ?case using prefix_Ch_protect "2.IH" by (meson prefix_imp_sublist sublist_Cons_right)
next
  case (3 a b m x)
  then show ?case by simp
next
  case (4 a b m x k ts)
  from "4.prems" have "prefix (map Ch w) (protect a b m (Ch x # Mark k # ts)) \<or>
      prefix (map Ch w) (protect a b m (Mark k # ts)) \<or>
      sublist (map Ch w) (protect a b m ts)"
    by (simp add: sublist_Cons_right)
  then show ?case using prefix_Ch_protect "4.IH" by (meson prefix_imp_sublist sublist_Cons_right)
next
  case (5 a b m x y ts)
  show ?case
  proof (cases "x = a \<and> y = b")
    case True
    with "5.prems" have "prefix (map Ch w) (protect a b m (Ch x # Ch y # ts)) \<or>
        sublist (map Ch w) (protect a b m ts)"
      by (simp add: sublist_Cons_right)
    then show ?thesis using prefix_Ch_protect "5.IH"(1) True
      by (meson prefix_imp_sublist sublist_Cons_right)
  next
    case False
    with "5.prems" have "prefix (map Ch w) (protect a b m (Ch x # Ch y # ts)) \<or>
        sublist (map Ch w) (protect a b m (Ch y # ts))"
      by (auto simp: sublist_Cons_right)
    then show ?thesis using prefix_Ch_protect "5.IH"(2) False
      by (meson prefix_imp_sublist sublist_Cons_right)
  qed
qed

lemma prefix_Ch_escape:
  "BS \<notin> set w \<Longrightarrow> prefix (map Ch w) (concat (map escape_tok ts)) \<Longrightarrow> prefix (map Ch w) ts"
proof (induction ts arbitrary: w)
  case Nil
  then show ?case by simp
next
  case (Cons t ts)
  show ?case
  proof (cases w)
    case Nil
    then show ?thesis by simp
  next
    case w: (Cons c w')
    show ?thesis
    proof (cases t)
      case (Ch x)
      then show ?thesis using Cons w by (auto split: if_splits)
    next
      case (Mark k)
      then show ?thesis using Cons w by auto
    qed
  qed
qed

lemma sublist_Ch_escape:
  assumes w: "BS \<notin> set w" "CHR '':'' \<notin> set w"
  shows "sublist (map Ch w) (concat (map escape_tok ts)) \<Longrightarrow> sublist (map Ch w) ts"
proof (induction ts)
  case Nil
  then show ?case by simp
next
  case (Cons t ts)
  let ?W = "map Ch w"
  let ?R = "concat (map escape_tok ts)"
  have pre: "prefix ?W (concat (map escape_tok (t # ts))) \<Longrightarrow> sublist ?W (t # ts)"
    using prefix_Ch_escape[OF w(1)] by (meson prefix_imp_sublist)
  have rest: "sublist ?W ?R \<Longrightarrow> sublist ?W (t # ts)"
    using Cons.IH by (simp add: sublist_Cons_right)
  show ?case
  proof (cases t)
    case (Mark k)
    then show ?thesis using Cons.prems pre rest by (auto simp: sublist_Cons_right)
  next
    case (Ch x)
    show ?thesis
    proof (cases "x = CHR '':''")
      case False
      then show ?thesis using Ch Cons.prems pre rest by (auto simp: sublist_Cons_right)
    next
      case True
      then have "sublist ?W (Ch BS # Ch x # ?R)" using Ch Cons.prems by simp
      then have "prefix ?W (concat (map escape_tok (t # ts))) \<or> prefix ?W (Ch x # ?R) \<or>
                 sublist ?W ?R"
        using Ch True by (auto simp: sublist_Cons_right)
      moreover have "prefix ?W (Ch x # ?R) \<Longrightarrow> w = []" using True w(2) by (cases w) auto
      ultimately show ?thesis using pre rest by auto
    qed
  qed
qed

lemma sublist_Ch_tokens:
  assumes "BS \<notin> set w" "CHR '':'' \<notin> set w"
    and "sublist (map Ch w)
           (concat (map escape_tok
              (protect BS CHR '':'' Escaped
                (protect CHR '':'' CHR ''='' Assign
                  (protect CHR '':'' CHR '':'' Cast (map Ch sql))))))"
  shows "sublist w sql"
  using assms sublist_Ch_escape sublist_Ch_protect sublist_map_Ch by blast


lemma middle_in_long_prefix:
  assumes "length h = 36" "length v0 \<le> 8" "24 \<le> length v0 + length r"
    and p: "prefix h (v0 @ r @ x)"
  shows "sublist (uuid_middle h) r"
proof -
  from p obtain y where "v0 @ r @ x = h @ y" by (auto simp: prefix_def)
  then have "take 24 (v0 @ r @ x) = take 24 h" using assms(1) by simp
  moreover have "take 24 (v0 @ r @ x) = v0 @ take (24 - length v0) r" using assms(2,3) by simp
  ultimately have "take 24 h = v0 @ take (24 - length v0) r" by simp
  then have "drop 8 (take 24 h) = drop (8 - length v0) (take (24 - length v0) r)"
    using assms(2) by simp
  moreover have "drop 8 (take 24 h) = uuid_middle h" by (simp add: uuid_middle_def drop_take)
  ultimately have "uuid_middle h = drop (8 - length v0) (take (24 - length v0) r)" by simp
  moreover have "sublist (drop (8 - length v0) (take (24 - length v0) r)) r"
    by (meson sublist_drop sublist_take sublist_order.order.trans)
  ultimately show ?thesis by simp
qed

lemma window_after_short_prefix:
  assumes h: "uuid_frame h"
    and \<rho>: "\<forall>k. uuid_frame (\<rho> k) \<or> (\<rho> k \<noteq> [] \<and> set (\<rho> k) \<inter> set h = {})"
  shows "length v0 \<le> 8 \<Longrightarrow> v0 \<noteq> [] \<or> r \<noteq> [] \<Longrightarrow> prefix h (v0 @ r @ flat \<rho> ts) \<Longrightarrow>
         sublist (map Ch (uuid_middle h)) (map Ch r @ ts)"
proof (induction ts arbitrary: r)
  case Nil
  have lh: "length h = 36" using h by (simp add: uuid_frame_def)
  have "length h \<le> length (v0 @ r)" using Nil.prems(3) by (auto dest: prefix_length_le)
  then have "24 \<le> length v0 + length r" using lh by simp
  then have "sublist (uuid_middle h) r"
    using middle_in_long_prefix[OF lh Nil.prems(1) _ Nil.prems(3)] by simp
  then show ?case by (simp add: sublist_map)
next
  case (Cons t ts)
  have lh: "length h = 36" using h by (simp add: uuid_frame_def)
  show ?case
  proof (cases "24 \<le> length v0 + length r")
    case True
    then have "sublist (uuid_middle h) r"
      using middle_in_long_prefix[OF lh Cons.prems(1) _ Cons.prems(3)] by simp
    then have "sublist (map Ch (uuid_middle h)) (map Ch r)" by (rule sublist_map)
    then show ?thesis by (meson sublist_append_rightI sublist_order.order.trans)
  next
    case False
    let ?n = "length v0 + length r"
    have n: "1 \<le> ?n" "?n \<le> 23" using False Cons.prems(2) by (auto simp: Suc_le_eq)
    show ?thesis
    proof (cases t)
      case (Ch c)
      have "prefix h (v0 @ (r @ [c]) @ flat \<rho> ts)" using Cons.prems(3) Ch by simp
      then have "sublist (map Ch (uuid_middle h)) (map Ch (r @ [c]) @ ts)"
        using Cons.IH[of "r @ [c]"] Cons.prems(1) by simp
      then show ?thesis using Ch by simp
    next
      case (Mark k)
      let ?e = "\<rho> k"
      let ?T = "(v0 @ r) @ ?e @ flat \<rho> ts"
      from Cons.prems(3) Mark obtain y where T: "?T = h @ y" by (auto simp: prefix_def)
      have th: "\<And>i. i < 36 \<Longrightarrow> ?T ! i = h ! i" using T lh by (simp add: nth_append)
      have te: "\<And>i. i < length ?e \<Longrightarrow> ?T ! (?n + i) = ?e ! i"
        by (simp add: nth_append)
      have False
      proof (cases "uuid_frame ?e")
        case False
        then have a: "?e \<noteq> []" "set ?e \<inter> set h = {}" using \<rho> by auto
        have "?T ! ?n = ?e ! 0" using te[of 0] a(1) by simp
        moreover have "?T ! ?n = h ! ?n" using th[of ?n] n by simp
        ultimately have "?e ! 0 = h ! ?n" by simp
        moreover have "?e ! 0 \<in> set ?e" using a(1) by simp
        moreover have "h ! ?n \<in> set h" using lh n by simp
        ultimately show False using a(2) by (metis disjoint_iff)
      next
        case True
        then have le: "length ?e = 36" and fe: "\<forall>i < 36. (?e ! i = CHR ''-'') = (i \<in> {8, 13, 18, 23})"
          by (simp_all add: uuid_frame_def)
        have fh: "\<forall>i < 36. (h ! i = CHR ''-'') = (i \<in> {8, 13, 18, 23})"
          using h by (simp add: uuid_frame_def)
        have "?T ! (?n + (23 - ?n)) = ?e ! (23 - ?n)" using te[of "23 - ?n"] le n by simp
        moreover have "?n + (23 - ?n) = 23" using n by simp
        ultimately have "?e ! (23 - ?n) = h ! 23" using th[of 23] by simp
        then have "?e ! (23 - ?n) = CHR ''-''" using fh by simp
        then have "23 - ?n \<in> {8, 13, 18, 23}" using fe n by simp
        then have c: "?n + 3 \<in> {8, 13, 18}" using n by auto
        have "?T ! (?n + 3) = ?e ! 3" using te[of 3] le by simp
        moreover have "?T ! (?n + 3) = h ! (?n + 3)" using th[of "?n + 3"] n by simp
        moreover have "?e ! 3 \<noteq> CHR ''-''" using fe by simp
        moreover have "h ! (?n + 3) = CHR ''-''" using fh c n by auto
        ultimately show False by simp
      qed
      then show ?thesis ..
    qed
  qed
qed

lemma frame_no_rogue:
  assumes h: "uuid_frame h"
    and \<rho>: "\<forall>k. uuid_frame (\<rho> k) \<or> (\<rho> k \<noteq> [] \<and> set (\<rho> k) \<inter> set h = {})"
    and j: "j < length (render_tok \<rho> t)"
    and p: "prefix h (drop j (render_tok \<rho> t) @ flat \<rho> post)"
  shows "(j = 0 \<and> render_tok \<rho> t = h) \<or> sublist (map Ch (uuid_middle h)) (t # post)"
proof (cases t)
  case (Ch c)
  then have "prefix h ([] @ [c] @ flat \<rho> post)" using p j by simp
  then have "sublist (map Ch (uuid_middle h)) (map Ch [c] @ post)"
    using window_after_short_prefix[OF h \<rho>, of "[]" "[c]" post] by simp
  then show ?thesis using Ch by simp
next
  case (Mark k)
  let ?e = "\<rho> k"
  let ?v = "drop j ?e"
  let ?T = "?v @ flat \<rho> post"
  have jk: "j < length ?e" using j Mark by simp
  have lh: "length h = 36" using h by (simp add: uuid_frame_def)
  have fh: "\<forall>i < 36. (h ! i = CHR ''-'') = (i \<in> {8, 13, 18, 23})"
    using h by (simp add: uuid_frame_def)
  from p Mark obtain y where T: "?T = h @ y" by (auto simp: prefix_def)
  have th: "\<And>i. i < 36 \<Longrightarrow> ?T ! i = h ! i" using T lh by (simp add: nth_append)
  show ?thesis
  proof (cases "uuid_frame ?e")
    case False
    then have a: "set ?e \<inter> set h = {}" using \<rho> by auto
    have "?T ! 0 = ?e ! j" using jk by (simp add: nth_append)
    then have "?e ! j = h ! 0" using th[of 0] by simp
    moreover have "?e ! j \<in> set ?e" using jk by simp
    moreover have "h ! 0 \<in> set h" using lh by simp
    ultimately have False using a by (metis disjoint_iff)
    then show ?thesis ..
  next
    case True
    then have le: "length ?e = 36" and fe: "\<forall>i < 36. (?e ! i = CHR ''-'') = (i \<in> {8, 13, 18, 23})"
      by (simp_all add: uuid_frame_def)
    show ?thesis
    proof (cases "j = 0")
      case j0: True
      then have "prefix h (?e @ flat \<rho> post)" using p Mark by simp
      then have "h = ?e" using lh le by (metis append_eq_append_conv prefixE append.assoc)
      then show ?thesis using j0 Mark by simp
    next
      case jpos: False
      show ?thesis
      proof (cases "j < 28")
        case True
        then have "8 < length ?v" "3 < length ?v" using le by simp_all
        then have "?T ! 8 = ?e ! (j + 8)" "?T ! 3 = ?e ! (j + 3)" using le True
          by (simp_all add: nth_append)
        then have a: "?e ! (j + 8) = h ! 8" and b: "?e ! (j + 3) = h ! 3"
          using th[of 8] th[of 3] by simp_all
        have "?e ! (j + 8) = CHR ''-''" using a fh by simp
        then have "j + 8 \<in> {8, 13, 18, 23}" using fe True by simp
        then have "j + 3 \<in> {8, 13, 18, 23}" using jpos by auto
        then have "?e ! (j + 3) = CHR ''-''" using fe True by simp
        moreover have "h ! 3 \<noteq> CHR ''-''" using fh by simp
        ultimately have False using b by simp
        then show ?thesis ..
      next
        case False
        then have "length ?v \<le> 8" "?v \<noteq> []" using le jk by simp_all
        moreover have "prefix h (?v @ [] @ flat \<rho> post)" using p Mark by simp
        ultimately have "sublist (map Ch (uuid_middle h)) (map Ch [] @ post)"
          using window_after_short_prefix[OF h \<rho>, of ?v "[]" post] by simp
        then show ?thesis by (simp add: sublist_Cons_right)
      qed
    qed
  qed
qed


lemma uuid4_chars: "is_uuid4_str h \<Longrightarrow> c \<in> set h \<Longrightarrow> c = CHR ''-'' \<or> is_hex c"
  unfolding is_uuid4_str_def by (metis in_set_conv_nth)

lemma uuid4_no_special:
  assumes "is_uuid4_str h"
  shows "h \<noteq> []" "CHR '':'' \<notin> set h" "CHR ''='' \<notin> set h" "BS \<notin> set h"
proof -
  show "h \<noteq> []" using assms by (auto simp: is_uuid4_str_def)
  show "CHR '':'' \<notin> set h" using uuid4_chars[OF assms, of "CHR '':''"] by (auto simp: is_hex_def)
  show "CHR ''='' \<notin> set h" using uuid4_chars[OF assms, of "CHR ''=''"] by (auto simp: is_hex_def)
  show "BS \<notin> set h" using uuid4_chars[OF assms, of BS] by (auto simp: is_hex_def)
qed

lemma uuid4_frame: "is_uuid4_str h \<Longrightarrow> uuid_frame h"
proof -
  assume u: "is_uuid4_str h"
  have "\<not> is_hex (CHR ''-'')" by (simp add: is_hex_def)
  then have "\<forall>i < 36. (h ! i = CHR ''-'') = (i \<in> {8, 13, 18, 23})"
    using u unfolding is_uuid4_str_def by metis
  then show ?thesis using u by (simp add: uuid_frame_def is_uuid4_str_def)
qed

lemma set_uuid_middle: "set (uuid_middle h) \<subseteq> set h"
  unfolding uuid_middle_def by (meson set_take_subset set_drop_subset subset_trans)

lemma middle_not_in_tokens:
  assumes u: "is_uuid4_str h" and f: "\<not> sublist (uuid_middle h) sql"
  shows "\<not> sublist (map Ch (uuid_middle h))
           (concat (map escape_tok
              (protect BS CHR '':'' Escaped
                (protect CHR '':'' CHR ''='' Assign
                  (protect CHR '':'' CHR '':'' Cast (map Ch sql))))))"
proof -
  have "BS \<notin> set (uuid_middle h)" "CHR '':'' \<notin> set (uuid_middle h)"
    using uuid4_no_special[OF u] set_uuid_middle[of h] by auto
  then show ?thesis using sublist_Ch_tokens f by blast
qed

lemma restore_holder:
  assumes h: "uuid_frame h" "\<rho> m = h" "\<forall>k. \<rho> k = h \<longrightarrow> k = m"
    and r: "\<rho>' m = new" "\<forall>k. k \<noteq> m \<longrightarrow> \<rho>' k = \<rho> k"
    and ok: "\<forall>k. uuid_frame (\<rho> k) \<or> (\<rho> k \<noteq> [] \<and> set (\<rho> k) \<inter> set h = {})"
    and ts: "\<not> sublist (map Ch (uuid_middle h)) ts"
  shows "replace h new (flat \<rho> ts) = flat \<rho>' ts"
proof (rule restore_flat[OF _ h(2) r])
  show "h \<noteq> []" using h(1) by (auto simp: uuid_frame_def)
next
  fix pre t post j
  assume d: "ts = pre @ t # post" and j: "j < length (render_tok \<rho> t)"
    and p: "prefix h (drop j (render_tok \<rho> t) @ flat \<rho> post)"
  have "\<not> sublist (map Ch (uuid_middle h)) (t # post)"
    using ts d by (metis sublist_append_leftI sublist_order.order.trans)
  then have e: "j = 0 \<and> render_tok \<rho> t = h" using frame_no_rogue[OF h(1) ok j p] by blast
  have "t = Mark m"
  proof (cases t)
    case (Ch c)
    then show ?thesis using e h(1) by (auto simp: uuid_frame_def)
  next
    case (Mark k)
    then show ?thesis using e h(3) by auto
  qed
  then show "t = Mark m \<and> j = 0" using e by simp
qed

lemma escape_colon_for_plpgsql_refines:
  assumes fresh: "placeholders_fresh h1 h2 h3 sql"
  shows "escape_colon_for_plpgsql h1 h2 h3 sql = escape_colon_plpgsql_spec sql"
proof -
  let ?r0 = "holders h1 h2 h3"
  let ?r1 = "holders h1 h2 [BS, CHR '':'']"
  let ?r2 = "holders h1 '':='' [BS, CHR '':'']"
  let ?ts1 = "protect CHR '':'' CHR '':'' Cast (map Ch sql)"
  let ?ts2 = "protect CHR '':'' CHR ''='' Assign ?ts1"
  let ?ts3 = "protect BS CHR '':'' Escaped ?ts2"
  let ?ts4 = "concat (map escape_tok ?ts3)"
  have u: "is_uuid4_str h1" "is_uuid4_str h2" "is_uuid4_str h3"
    and d: "distinct [h1, h2, h3]"
    and m: "\<not> sublist (uuid_middle h1) sql" "\<not> sublist (uuid_middle h2) sql"
      "\<not> sublist (uuid_middle h3) sql"
    using fresh by (simp_all add: placeholders_fresh_def)
  note n1 = uuid4_no_special[OF u(1)] and n2 = uuid4_no_special[OF u(2)]
    and n3 = uuid4_no_special[OF u(3)]
  note f1 = uuid4_frame[OF u(1)] and f2 = uuid4_frame[OF u(2)] and f3 = uuid4_frame[OF u(3)]
  note t1 = middle_not_in_tokens[OF u(1) m(1)] and t2 = middle_not_in_tokens[OF u(2) m(2)]
    and t3 = middle_not_in_tokens[OF u(3) m(3)]
  have l: "length h1 = 36" "length h2 = 36" "length h3 = 36"
    using f1 f2 f3 by (simp_all add: uuid_frame_def)
  have p1: "\<forall>k. ?r0 k \<noteq> [] \<and> CHR '':'' \<notin> set (?r0 k) \<and> CHR '':'' \<notin> set (?r0 k)"
  proof
    fix k show "?r0 k \<noteq> [] \<and> CHR '':'' \<notin> set (?r0 k) \<and> CHR '':'' \<notin> set (?r0 k)"
      using n1 n2 n3 by (cases k) auto
  qed
  have p2: "\<forall>k. ?r0 k \<noteq> [] \<and> CHR '':'' \<notin> set (?r0 k) \<and> CHR ''='' \<notin> set (?r0 k)"
  proof
    fix k show "?r0 k \<noteq> [] \<and> CHR '':'' \<notin> set (?r0 k) \<and> CHR ''='' \<notin> set (?r0 k)"
      using n1 n2 n3 by (cases k) auto
  qed
  have p3: "\<forall>k. ?r0 k \<noteq> [] \<and> BS \<notin> set (?r0 k) \<and> CHR '':'' \<notin> set (?r0 k)"
  proof
    fix k show "?r0 k \<noteq> [] \<and> BS \<notin> set (?r0 k) \<and> CHR '':'' \<notin> set (?r0 k)"
      using n1 n2 n3 by (cases k) auto
  qed
  have p4: "\<forall>k. CHR '':'' \<notin> set (?r0 k)" using p2 by blast
  have 1: "replace ''::'' h1 sql = flat ?r0 ?ts1"
    using protect_flat[OF p1, of Cast "map Ch sql"] by (simp add: flat_map_Ch)
  have 2: "replace '':='' h2 (flat ?r0 ?ts1) = flat ?r0 ?ts2"
    using protect_flat[OF p2, of Assign ?ts1] by simp
  have 3: "replace [BS, CHR '':''] h3 (flat ?r0 ?ts2) = flat ?r0 ?ts3"
    using protect_flat[OF p3, of Escaped ?ts2] by simp
  have 4: "replace '':'' [BS, CHR '':''] (flat ?r0 ?ts3) = flat ?r0 ?ts4"
    using p4 by (rule escape_flat)
  have 5: "replace h3 [BS, CHR '':''] (flat ?r0 ?ts4) = flat ?r1 ?ts4"
  proof (rule restore_holder[OF f3 _ _ _ _ _ t3, of _ Escaped])
    show "?r0 Escaped = h3" by simp
    show "\<forall>k. ?r0 k = h3 \<longrightarrow> k = Escaped"
    proof (intro allI impI)
      fix k assume "?r0 k = h3"
      then show "k = Escaped" using d by (cases k) auto
    qed
    show "?r1 Escaped = [BS, CHR '':'']" by simp
    show "\<forall>k. k \<noteq> Escaped \<longrightarrow> ?r1 k = ?r0 k"
    proof (intro allI impI)
      fix k :: marker assume "k \<noteq> Escaped"
      then show "?r1 k = ?r0 k" by (cases k) auto
    qed
    show "\<forall>k. uuid_frame (?r0 k) \<or> (?r0 k \<noteq> [] \<and> set (?r0 k) \<inter> set h3 = {})"
    proof
      fix k show "uuid_frame (?r0 k) \<or> (?r0 k \<noteq> [] \<and> set (?r0 k) \<inter> set h3 = {})"
        using f1 f2 f3 by (cases k) auto
    qed
  qed
  have 6: "replace h2 '':='' (flat ?r1 ?ts4) = flat ?r2 ?ts4"
  proof (rule restore_holder[OF f2 _ _ _ _ _ t2, of _ Assign])
    show "?r1 Assign = h2" by simp
    show "\<forall>k. ?r1 k = h2 \<longrightarrow> k = Assign"
    proof (intro allI impI)
      fix k assume "?r1 k = h2"
      then show "k = Assign" using d l by (cases k) auto
    qed
    show "?r2 Assign = '':=''" by simp
    show "\<forall>k. k \<noteq> Assign \<longrightarrow> ?r2 k = ?r1 k"
    proof (intro allI impI)
      fix k :: marker assume "k \<noteq> Assign"
      then show "?r2 k = ?r1 k" by (cases k) auto
    qed
    show "\<forall>k. uuid_frame (?r1 k) \<or> (?r1 k \<noteq> [] \<and> set (?r1 k) \<inter> set h2 = {})"
    proof
      fix k show "uuid_frame (?r1 k) \<or> (?r1 k \<noteq> [] \<and> set (?r1 k) \<inter> set h2 = {})"
        using f1 f2 n2 by (cases k) auto
    qed
  qed
  have 7: "replace h1 ''::'' (flat ?r2 ?ts4) = flat marker_text ?ts4"
  proof (rule restore_holder[OF f1 _ _ _ _ _ t1, of _ Cast])
    show "?r2 Cast = h1" by simp
    show "\<forall>k. ?r2 k = h1 \<longrightarrow> k = Cast"
    proof (intro allI impI)
      fix k assume "?r2 k = h1"
      then show "k = Cast" using l by (cases k) auto
    qed
    show "marker_text Cast = ''::''" by simp
    show "\<forall>k. k \<noteq> Cast \<longrightarrow> marker_text k = ?r2 k"
    proof (intro allI impI)
      fix k :: marker assume "k \<noteq> Cast"
      then show "marker_text k = ?r2 k" by (cases k) auto
    qed
    show "\<forall>k. uuid_frame (?r2 k) \<or> (?r2 k \<noteq> [] \<and> set (?r2 k) \<inter> set h1 = {})"
    proof
      fix k show "uuid_frame (?r2 k) \<or> (?r2 k \<noteq> [] \<and> set (?r2 k) \<inter> set h1 = {})"
        using f1 n1 by (cases k) auto
    qed
  qed
  show ?thesis
    by (simp only: escape_colon_for_plpgsql_def escape_colon_plpgsql_spec_def Let_def 1 2 3 4 5 6 7)
qed


text \<open>
  C5, as amended. With three distinct placeholders whose middle section (the sixteen
  characters from the first to the last hyphen) does not occur in the text,
  \<open>escape_colon_for_plpgsql\<close> returns what the out-of-band reading returns: \<open>::\<close>, then
  \<open>:=\<close>, then backslash-colon are protected in this order and come out unchanged, and every
  other colon gets a backslash.
\<close>

theorem escape_colon_for_plpgsql_protects:
  assumes "placeholders_fresh holder1 holder2 holder3 sql"
  shows "escape_colon_for_plpgsql holder1 holder2 holder3 sql = escape_colon_plpgsql_spec sql"
  using assms by (rule escape_colon_for_plpgsql_refines)

theorem escape_colon_for_plpgsql_protects_witness:
  "placeholders_fresh ''3f2b8c1e-9d4a-4f6b-8a2e-5c7d9e1f0a3b''
     ''0a1b2c3d-4e5f-4a6b-9c7d-8e9f0a1b2c3d'' ''f47ac10b-58cc-4372-a567-0e02b2c3d479''
     (''n := n - 1; x := y::int; -- :a '' @ [BS] @ '':b'') \<and>
   escape_colon_for_plpgsql ''3f2b8c1e-9d4a-4f6b-8a2e-5c7d9e1f0a3b''
     ''0a1b2c3d-4e5f-4a6b-9c7d-8e9f0a1b2c3d'' ''f47ac10b-58cc-4372-a567-0e02b2c3d479''
     (''n := n - 1; x := y::int; -- :a '' @ [BS] @ '':b'') =
   ''n := n - 1; x := y::int; -- '' @ [BS] @ '':a '' @ [BS] @ '':b''"
proof -
  have u1: "is_uuid4_str ''3f2b8c1e-9d4a-4f6b-8a2e-5c7d9e1f0a3b''" by (simp add: uuid4_eval)
  have u2: "is_uuid4_str ''0a1b2c3d-4e5f-4a6b-9c7d-8e9f0a1b2c3d''" by (simp add: uuid4_eval)
  have u3: "is_uuid4_str ''f47ac10b-58cc-4372-a567-0e02b2c3d479''" by (simp add: uuid4_eval)
  have m1: "\<not> sublist (uuid_middle ''3f2b8c1e-9d4a-4f6b-8a2e-5c7d9e1f0a3b'')
              (''n := n - 1; x := y::int; -- :a '' @ [BS] @ '':b'')" by code_simp
  have m2: "\<not> sublist (uuid_middle ''0a1b2c3d-4e5f-4a6b-9c7d-8e9f0a1b2c3d'')
              (''n := n - 1; x := y::int; -- :a '' @ [BS] @ '':b'')" by code_simp
  have m3: "\<not> sublist (uuid_middle ''f47ac10b-58cc-4372-a567-0e02b2c3d479'')
              (''n := n - 1; x := y::int; -- :a '' @ [BS] @ '':b'')" by code_simp
  have f: "placeholders_fresh ''3f2b8c1e-9d4a-4f6b-8a2e-5c7d9e1f0a3b''
     ''0a1b2c3d-4e5f-4a6b-9c7d-8e9f0a1b2c3d'' ''f47ac10b-58cc-4372-a567-0e02b2c3d479''
     (''n := n - 1; x := y::int; -- :a '' @ [BS] @ '':b'')"
    unfolding placeholders_fresh_def using u1 u2 u3 m1 m2 m3 by simp
  have "escape_colon_plpgsql_spec (''n := n - 1; x := y::int; -- :a '' @ [BS] @ '':b'') =
        ''n := n - 1; x := y::int; -- '' @ [BS] @ '':a '' @ [BS] @ '':b''"
    by (simp add: escape_colon_plpgsql_spec_def)
  then show ?thesis
    using f escape_colon_for_plpgsql_protects[OF f] by simp
qed

text \<open>
  C5, as stated, fails: the three placeholders are random and unchecked. A text that
  contains the second placeholder has it rewritten to \<open>:=\<close> where the out-of-band reading
  leaves the text as it is, and when the first two draws are equal every cast comes back as
  an assignment.
\<close>

theorem escape_colon_for_plpgsql_placeholder_collision:
  "escape_colon_for_plpgsql ''3f2b8c1e-9d4a-4f6b-8a2e-5c7d9e1f0a3b''
     ''0a1b2c3d-4e5f-4a6b-9c7d-8e9f0a1b2c3d'' ''f47ac10b-58cc-4372-a567-0e02b2c3d479''
     ''select '0a1b2c3d-4e5f-4a6b-9c7d-8e9f0a1b2c3d' as id'' = ''select ':=' as id'' \<and>
   escape_colon_plpgsql_spec ''select '0a1b2c3d-4e5f-4a6b-9c7d-8e9f0a1b2c3d' as id'' =
     ''select '0a1b2c3d-4e5f-4a6b-9c7d-8e9f0a1b2c3d' as id'' \<and>
   escape_colon_for_plpgsql ''3f2b8c1e-9d4a-4f6b-8a2e-5c7d9e1f0a3b''
     ''3f2b8c1e-9d4a-4f6b-8a2e-5c7d9e1f0a3b'' ''f47ac10b-58cc-4372-a567-0e02b2c3d479''
     ''a := b::int'' = ''a := b:=int'' \<and>
   escape_colon_plpgsql_spec ''a := b::int'' = ''a := b::int''"
  by (simp add: escape_colon_for_plpgsql_def escape_colon_plpgsql_spec_def)

text \<open>
  C6, as stated, fails: the placeholder is a random UUID that is not checked against the
  text. When the text contains the placeholder that the call draws, that part of the text
  comes back as a doubled colon; with another placeholder the same text comes back unchanged.
\<close>

theorem escape_colon_for_sql_placeholder_collision:
  "is_uuid4_str ''3f2b8c1e-9d4a-4f6b-8a2e-5c7d9e1f0a3b'' \<and>
   is_uuid4_str ''0a1b2c3d-4e5f-4a6b-9c7d-8e9f0a1b2c3d'' \<and>
   escape_colon_for_sql ''3f2b8c1e-9d4a-4f6b-8a2e-5c7d9e1f0a3b''
     ''select '3f2b8c1e-9d4a-4f6b-8a2e-5c7d9e1f0a3b' as id'' = ''select '::' as id'' \<and>
   escape_colon_for_sql ''0a1b2c3d-4e5f-4a6b-9c7d-8e9f0a1b2c3d''
     ''select '3f2b8c1e-9d4a-4f6b-8a2e-5c7d9e1f0a3b' as id'' =
     ''select '3f2b8c1e-9d4a-4f6b-8a2e-5c7d9e1f0a3b' as id''"
  by (simp add: uuid4_eval escape_colon_for_sql_def)

text \<open>
  C6, as amended. For placeholders that do not collide with the text, the result does not
  depend on the placeholder: two fresh placeholders give the same result of
  \<open>escape_colon_for_sql\<close>, and two fresh triples of placeholders give the same result of
  \<open>escape_colon_for_plpgsql\<close>.
\<close>

theorem escaping_independent_of_fresh_placeholders:
  "(holder_fresh h sql \<and> holder_fresh h' sql \<longrightarrow>
      escape_colon_for_sql h sql = escape_colon_for_sql h' sql) \<and>
   (placeholders_fresh h1 h2 h3 sql' \<and> placeholders_fresh k1 k2 k3 sql' \<longrightarrow>
      escape_colon_for_plpgsql h1 h2 h3 sql' = escape_colon_for_plpgsql k1 k2 k3 sql')"
  by (simp add: escape_colon_for_sql_refines escape_colon_for_plpgsql_refines)

theorem escaping_independent_of_fresh_placeholders_witness:
  "holder_fresh ''3f2b8c1e-9d4a-4f6b-8a2e-5c7d9e1f0a3b'' ''select a::int, :b - 1'' \<and>
   holder_fresh ''0a1b2c3d-4e5f-4a6b-9c7d-8e9f0a1b2c3d'' ''select a::int, :b - 1'' \<and>
   escape_colon_for_sql ''3f2b8c1e-9d4a-4f6b-8a2e-5c7d9e1f0a3b'' ''select a::int, :b - 1'' =
   escape_colon_for_sql ''0a1b2c3d-4e5f-4a6b-9c7d-8e9f0a1b2c3d'' ''select a::int, :b - 1'' \<and>
   placeholders_fresh ''3f2b8c1e-9d4a-4f6b-8a2e-5c7d9e1f0a3b''
     ''0a1b2c3d-4e5f-4a6b-9c7d-8e9f0a1b2c3d'' ''f47ac10b-58cc-4372-a567-0e02b2c3d479''
     ''a-b :c'' \<and>
   placeholders_fresh ''9b2d4f60-7c1a-4e83-b5d9-2a6c8e0f1b37''
     ''c56a4180-65aa-42ec-a945-5fd21dec0538'' ''123e4567-e89b-42d3-a456-426614174000''
     ''a-b :c'' \<and>
   escape_colon_for_plpgsql ''3f2b8c1e-9d4a-4f6b-8a2e-5c7d9e1f0a3b''
     ''0a1b2c3d-4e5f-4a6b-9c7d-8e9f0a1b2c3d'' ''f47ac10b-58cc-4372-a567-0e02b2c3d479''
     ''a-b :c'' =
   escape_colon_for_plpgsql ''9b2d4f60-7c1a-4e83-b5d9-2a6c8e0f1b37''
     ''c56a4180-65aa-42ec-a945-5fd21dec0538'' ''123e4567-e89b-42d3-a456-426614174000''
     ''a-b :c''"
proof -
  have f1: "holder_fresh ''3f2b8c1e-9d4a-4f6b-8a2e-5c7d9e1f0a3b'' ''select a::int, :b - 1''"
    by code_simp
  have f2: "holder_fresh ''0a1b2c3d-4e5f-4a6b-9c7d-8e9f0a1b2c3d'' ''select a::int, :b - 1''"
    by code_simp
  have u1: "is_uuid4_str ''3f2b8c1e-9d4a-4f6b-8a2e-5c7d9e1f0a3b''" by (simp add: uuid4_eval)
  have u2: "is_uuid4_str ''0a1b2c3d-4e5f-4a6b-9c7d-8e9f0a1b2c3d''" by (simp add: uuid4_eval)
  have u3: "is_uuid4_str ''f47ac10b-58cc-4372-a567-0e02b2c3d479''" by (simp add: uuid4_eval)
  have v1: "is_uuid4_str ''9b2d4f60-7c1a-4e83-b5d9-2a6c8e0f1b37''" by (simp add: uuid4_eval)
  have v2: "is_uuid4_str ''c56a4180-65aa-42ec-a945-5fd21dec0538''" by (simp add: uuid4_eval)
  have v3: "is_uuid4_str ''123e4567-e89b-42d3-a456-426614174000''" by (simp add: uuid4_eval)
  have m: "\<not> sublist (uuid_middle ''3f2b8c1e-9d4a-4f6b-8a2e-5c7d9e1f0a3b'') ''a-b :c''"
    "\<not> sublist (uuid_middle ''0a1b2c3d-4e5f-4a6b-9c7d-8e9f0a1b2c3d'') ''a-b :c''"
    "\<not> sublist (uuid_middle ''f47ac10b-58cc-4372-a567-0e02b2c3d479'') ''a-b :c''"
    "\<not> sublist (uuid_middle ''9b2d4f60-7c1a-4e83-b5d9-2a6c8e0f1b37'') ''a-b :c''"
    "\<not> sublist (uuid_middle ''c56a4180-65aa-42ec-a945-5fd21dec0538'') ''a-b :c''"
    "\<not> sublist (uuid_middle ''123e4567-e89b-42d3-a456-426614174000'') ''a-b :c''"
    by code_simp+
  have p1: "placeholders_fresh ''3f2b8c1e-9d4a-4f6b-8a2e-5c7d9e1f0a3b''
     ''0a1b2c3d-4e5f-4a6b-9c7d-8e9f0a1b2c3d'' ''f47ac10b-58cc-4372-a567-0e02b2c3d479''
     ''a-b :c''"
    unfolding placeholders_fresh_def using u1 u2 u3 m by simp
  have p2: "placeholders_fresh ''9b2d4f60-7c1a-4e83-b5d9-2a6c8e0f1b37''
     ''c56a4180-65aa-42ec-a945-5fd21dec0538'' ''123e4567-e89b-42d3-a456-426614174000''
     ''a-b :c''"
    unfolding placeholders_fresh_def using v1 v2 v3 m by simp
  show ?thesis
    using f1 f2 p1 p2
      escaping_independent_of_fresh_placeholders
        [of "''3f2b8c1e-9d4a-4f6b-8a2e-5c7d9e1f0a3b''" "''select a::int, :b - 1''"
            "''0a1b2c3d-4e5f-4a6b-9c7d-8e9f0a1b2c3d''"
            "''3f2b8c1e-9d4a-4f6b-8a2e-5c7d9e1f0a3b''" "''0a1b2c3d-4e5f-4a6b-9c7d-8e9f0a1b2c3d''"
            "''f47ac10b-58cc-4372-a567-0e02b2c3d479''" "''a-b :c''"
            "''9b2d4f60-7c1a-4e83-b5d9-2a6c8e0f1b37''" "''c56a4180-65aa-42ec-a945-5fd21dec0538''"
            "''123e4567-e89b-42d3-a456-426614174000''"]
    by simp
qed

section \<open>Round trip of storage parameters\<close>

lemma split_on_not_Nil: "split_on c s \<noteq> []"
  by (induction s) (auto split: list.splits)

lemma split_on_absent: "c \<notin> set s \<Longrightarrow> split_on c s = [s]"
  by (induction s) auto

lemma split_on_no_sep: "p \<in> set (split_on c s) \<Longrightarrow> c \<notin> set p"
proof (induction s arbitrary: p)
  case Nil
  then show ?case by simp
next
  case (Cons x s)
  then show ?case by (cases "split_on c s") (auto split: if_splits)
qed

lemma split_on_prepend:
  "c \<notin> set x \<Longrightarrow> split_on c (x @ y) = (x @ hd (split_on c y)) # tl (split_on c y)"
proof (induction x)
  case Nil
  then show ?case using split_on_not_Nil[of c y] by simp
next
  case (Cons a x)
  then show ?case by auto
qed

lemma split_on_append: "c \<notin> set x \<Longrightarrow> split_on c (x @ c # y) = x # split_on c y"
  by (simp add: split_on_prepend)

lemma split_on_join:
  "rs \<noteq> [] \<Longrightarrow> \<forall>r \<in> set rs. CHR '','' \<notin> set r \<Longrightarrow> CHR '','' \<notin> set pre \<Longrightarrow>
   split_on CHR '','' (pre @ join '', '' rs) = (pre @ hd rs) # map (\<lambda>r. CHR '' '' # r) (tl rs)"
proof (induction "'', ''" rs arbitrary: pre rule: join.induct)
  case 1
  then show ?case by simp
next
  case (2 x)
  then show ?case by (simp add: split_on_absent)
next
  case (3 x y ys)
  have "split_on CHR '','' ((pre @ x) @ CHR '','' # ('' '' @ join '', '' (y # ys))) =
        (pre @ x) # split_on CHR '','' ('' '' @ join '', '' (y # ys))"
    using 3(2,3,4) by (intro split_on_append) simp
  moreover have "split_on CHR '','' ('' '' @ join '', '' (y # ys)) =
        ('' '' @ hd (y # ys)) # map (\<lambda>r. CHR '' '' # r) (tl (y # ys))"
    using 3(3) by (intro 3(1)) auto
  ultimately show ?case by simp
qed

lemma parse_parts_Cons:
  "parse_parts (p # parts) = Inr xs \<longleftrightarrow>
     (\<exists>x xs'. xs = x # xs' \<and> parse_part p = Inr x \<and> parse_parts parts = Inr xs')"
  by (auto split: sum.splits)

lemma parse_parts_Inr:
  "parse_parts parts = Inr xs \<longleftrightarrow> list_all2 (\<lambda>p x. parse_part p = Inr x) parts xs"
proof (induction parts arbitrary: xs)
  case Nil
  then show ?case by auto
next
  case (Cons p parts)
  show ?case unfolding parse_parts_Cons Cons.IH by (auto simp: list_all2_Cons1)
qed

lemma not_digit_eq: "\<not> is_digit (CHR ''='')"
  by (simp add: is_digit_def)

lemma parse_part_flag: "CHR ''='' \<notin> set part \<Longrightarrow> parse_part part = Inr (Flag (strip part))"
  by (simp add: parse_part_def)

lemma parse_part_pair:
  assumes a: "CHR ''='' \<notin> set a" "a \<noteq> []"
    and d: "\<not> is_digit ((a @ CHR ''='' # v) ! 1)"
  shows "parse_part (a @ CHR ''='' # v) = Inr (Pair (strip a) (VStr (strip v)))"
proof -
  let ?part = "a @ CHR ''='' # v"
  have s: "split_once CHR ''='' ?part = [a, v]"
    using a(1) by (simp add: split_once_def takeWhile_neq_append dropWhile_neq_append)
  have l: "1 < length ?part" using a(2) by (cases a) auto
  have i: "coerced_tuple py_int ?part = Inl ValueError"
    using l d by (simp add: coerced_tuple_def getitem_def py_int_def)
  have f: "coerced_tuple py_float ?part = Inl ValueError"
    using l d by (simp add: coerced_tuple_def getitem_def py_float_def)
  have "CHR ''='' \<in> set ?part" by simp
  then show ?thesis
    by (simp only: parse_part_def s i f Let_def getitem_def) simp
qed



lemma coerced_tuple_Inr:
  "coerced_tuple conv part = Inr q \<Longrightarrow> \<exists>c c1 x. q = Pair [c] x \<and> conv c1 = Inr x"
  by (auto simp: coerced_tuple_def getitem_def split: if_splits sum.splits)

lemma py_int_Inr: "py_int c = Inr x \<Longrightarrow> \<forall>s. x \<noteq> VStr s"
  by (auto simp: py_int_def split: if_splits)

lemma py_float_Inr: "py_float c = Inr x \<Longrightarrow> \<forall>s. x \<noteq> VStr s"
  by (auto simp: py_float_def split: if_splits)


lemma parse_part_with_eq:
  assumes e: "CHR ''='' \<in> set part" and p: "parse_part part = Inr p"
  shows "p = Pair (strip (takeWhile (\<lambda>c. c \<noteq> CHR ''='') part))
                  (VStr (strip (tl (dropWhile (\<lambda>c. c \<noteq> CHR ''='') part)))) \<or>
         (\<exists>c x. p = Pair [c] x \<and> (\<forall>s. x \<noteq> VStr s))"
proof -
  let ?k = "takeWhile (\<lambda>c. c \<noteq> CHR ''='') part"
  let ?v = "tl (dropWhile (\<lambda>c. c \<noteq> CHR ''='') part)"
  have s: "split_once CHR ''='' part = [?k, ?v]" using e by (simp add: split_once_def)
  have g: "getitem [?k, ?v] 0 = Inr ?k" "getitem [?k, ?v] 1 = Inr ?v" by (simp_all add: getitem_def)
  have pp: "parse_part part =
      (case coerced_tuple py_int part of
         Inl ValueError \<Rightarrow>
           (case coerced_tuple py_float part of
              Inl ValueError \<Rightarrow> Inr (Pair (strip ?k) (VStr (strip ?v)))
            | r \<Rightarrow> r)
       | r \<Rightarrow> r)"
    using e by (simp only: parse_part_def s g Let_def if_True sum.case)
  show ?thesis
  proof (cases "coerced_tuple py_int part")
    case (Inr q)
    then have "p = q" using p pp by simp
    then show ?thesis using coerced_tuple_Inr[OF Inr] py_int_Inr by blast
  next
    case (Inl err)
    show ?thesis
    proof (cases err)
      case IndexError
      then show ?thesis using p pp Inl by simp
    next
      case ValueError
      show ?thesis
      proof (cases "coerced_tuple py_float part")
        case (Inr q)
        then have "p = q" using p pp Inl ValueError by simp
        then show ?thesis using coerced_tuple_Inr[OF Inr] py_float_Inr by blast
      next
        case i2: (Inl err2)
        show ?thesis
        proof (cases err2)
          case IndexError
          then show ?thesis using p pp Inl ValueError i2 by simp
        next
          case v2: ValueError
          then show ?thesis using p pp Inl ValueError i2 by simp
        qed
      qed
    qed
  qed
qed




lemma set_tl_subset: "set (tl xs) \<subseteq> set xs"
  by (cases xs) auto

lemma parse_part_wf:
  assumes "CHR '','' \<notin> set part" "parse_part part = Inr p"
  shows "wf_param p"
proof (cases "CHR ''='' \<in> set part")
  case False
  then have "p = Flag (strip part)" using assms(2) by (simp add: parse_part_def)
  moreover have "set (strip part) \<subseteq> set part" by (rule set_strip)
  ultimately show ?thesis using assms(1) False by (auto simp: trimmed_strip)
next
  case True
  let ?k = "takeWhile (\<lambda>c. c \<noteq> CHR ''='') part"
  let ?d = "dropWhile (\<lambda>c. c \<noteq> CHR ''='') part"
  let ?v = "tl ?d"
  have k: "set ?k \<subseteq> set part"
  proof
    fix x assume "x \<in> set ?k"
    then show "x \<in> set part" by (rule set_takeWhileD[THEN conjunct1])
  qed
  have "set ?v \<subseteq> set ?d" by (rule set_tl_subset)
  moreover have "set ?d \<subseteq> set part"
  proof
    fix x assume "x \<in> set ?d"
    then show "x \<in> set part" by (rule set_dropWhileD)
  qed
  ultimately have v: "set ?v \<subseteq> set part" by blast
  have keq: "CHR ''='' \<notin> set ?k"
  proof
    assume "CHR ''='' \<in> set ?k"
    from set_takeWhileD[OF this] show False by simp
  qed
  have sk: "set (strip ?k) \<subseteq> set ?k" and sv: "set (strip ?v) \<subseteq> set ?v" by (rule set_strip)+
  have c1: "CHR '','' \<notin> set (strip ?k)" using sk k assms(1) by blast
  have c2: "CHR '','' \<notin> set (strip ?v)" using sv v assms(1) by blast
  have c3: "CHR ''='' \<notin> set (strip ?k)" using sk keq by blast
  from parse_part_with_eq[OF True assms(2)] show ?thesis
  proof
    assume p: "p = Pair (strip ?k) (VStr (strip ?v))"
    show ?thesis unfolding p using c1 c2 c3 by (simp add: trimmed_strip)
  next
    assume "\<exists>c x. p = Pair [c] x \<and> (\<forall>s. x \<noteq> VStr s)"
    then obtain c x where "p = Pair [c] x" "\<forall>s. x \<noteq> VStr s" by blast
    then show ?thesis by (cases x) auto
  qed
qed

lemma plain_wf_cases:
  assumes "wf_param p" "plain_param p"
  obtains (flag) t where "p = Flag t" "trimmed t" "CHR '','' \<notin> set t" "CHR ''='' \<notin> set t"
  | (pair) k v where "p = Pair k (VStr v)" "trimmed k" "trimmed v" "CHR '','' \<notin> set k"
      "CHR '','' \<notin> set v" "CHR ''='' \<notin> set k" "k \<noteq> []" "\<forall>c \<in> set (take 2 k). \<not> is_digit c"
proof (cases p)
  case (Flag t)
  then show ?thesis using assms flag by simp
next
  case (Pair k x)
  then obtain v where "x = VStr v" using assms(2) by (cases x) auto
  then show ?thesis using Pair assms pair by simp
qed

lemma render_no_comma:
  assumes "wf_param p" "plain_param p"
  shows "CHR '','' \<notin> set (render_param fr p)"
  using assms by (cases rule: plain_wf_cases) auto

lemma space_is_space: "\<forall>c \<in> set '' ''. is_space c"
  by (simp add: is_space_def)

lemma parse_part_render:
  assumes "wf_param p" "plain_param p"
  shows "parse_part (render_param fr p) = Inr p"
  using assms
proof (cases rule: plain_wf_cases)
  case (flag t)
  then show ?thesis by (simp add: parse_part_flag strip_trimmed)
next
  case (pair k v)
  have "\<not> is_digit ((k @ CHR ''='' # v) ! 1)"
  proof (cases k)
    case Nil
    then show ?thesis using pair by simp
  next
    case (Cons x k')
    then show ?thesis using pair(8) not_digit_eq by (cases k') auto
  qed
  then have "parse_part (k @ CHR ''='' # v) = Inr (Pair (strip k) (VStr (strip v)))"
    using pair by (intro parse_part_pair) auto
  then show ?thesis using pair by (simp add: strip_trimmed)
qed

lemma parse_part_space_render:
  assumes "wf_param p" "plain_param p"
  shows "parse_part (CHR '' '' # render_param fr p) = Inr p"
  using assms
proof (cases rule: plain_wf_cases)
  case (flag t)
  have "strip ('' '' @ t) = strip t" using space_is_space by (rule strip_append_space_left)
  then show ?thesis using flag by (simp add: parse_part_flag strip_trimmed)
next
  case (pair k v)
  have "\<not> is_digit (((CHR '' '' # k) @ CHR ''='' # v) ! 1)"
    using pair(7,8) by (cases k) auto
  then have "parse_part ((CHR '' '' # k) @ CHR ''='' # v) =
             Inr (Pair (strip (CHR '' '' # k)) (VStr (strip v)))"
    using pair by (intro parse_part_pair) auto
  moreover have "strip ('' '' @ k) = strip k" using space_is_space by (rule strip_append_space_left)
  ultimately show ?thesis using pair by (simp add: strip_trimmed)
qed

lemma parse_storage_parameters_wf:
  assumes "parse_storage_parameters s = Inr ps"
  shows "ps \<noteq> []" "\<forall>p \<in> set ps. wf_param p"
proof -
  let ?parts = "split_on CHR '','' s"
  have l: "list_all2 (\<lambda>p x. parse_part p = Inr x) ?parts ps"
    using assms by (simp add: parse_storage_parameters_def parse_parts_Inr)
  then have "length ?parts = length ps" by (rule list_all2_lengthD)
  then show "ps \<noteq> []" using split_on_not_Nil[of "CHR '',''" s] by auto
  show "\<forall>p \<in> set ps. wf_param p"
  proof
    fix x assume "x \<in> set ps"
    then obtain i where i: "i < length ps" "ps ! i = x" by (auto simp: in_set_conv_nth)
    then have "parse_part (?parts ! i) = Inr x" "?parts ! i \<in> set ?parts"
      using l by (auto simp: list_all2_conv_all_nth)
    then show "wf_param x" using split_on_no_sep parse_part_wf by blast
  qed
qed

lemma parse_rendered:
  assumes ne: "ps \<noteq> []" and ok: "\<forall>p \<in> set ps. wf_param p \<and> plain_param p"
  shows "parse_storage_parameters (join '', '' (map (render_param fr) ps)) = Inr ps"
proof -
  let ?rs = "map (render_param fr) ps"
  obtain p0 ps' where ps: "ps = p0 # ps'" using ne by (cases ps) auto
  have "\<forall>r \<in> set ?rs. CHR '','' \<notin> set r" using ok render_no_comma by auto
  then have "split_on CHR '','' ([] @ join '', '' ?rs) = ([] @ hd ?rs) # map (\<lambda>r. CHR '' '' # r) (tl ?rs)"
    using ne by (intro split_on_join) auto
  then have sp: "split_on CHR '','' (join '', '' ?rs) =
        render_param fr p0 # map (\<lambda>p. CHR '' '' # render_param fr p) ps'"
    using ps by simp
  have "list_all2 (\<lambda>p x. parse_part (CHR '' '' # render_param fr p) = Inr x) ps' ps'"
    using ok ps by (intro list.rel_refl_strong) (simp add: parse_part_space_render)
  moreover have "parse_part (render_param fr p0) = Inr p0" using ok ps by (simp add: parse_part_render)
  ultimately have "parse_parts (render_param fr p0 # map (\<lambda>p. CHR '' '' # render_param fr p) ps') =
                   Inr (p0 # ps')"
    unfolding parse_parts_Inr by (simp add: list_all2_map1)
  then show ?thesis
    using sp ps by (simp only: parse_storage_parameters_def)
qed

text \<open>
  C3, as amended. \<open>format_storage_parameters_clause\<close> writes the whole clause, the body
  between \<open>" WITH ("\<close> and \<open>")"\<close>; parsing that body gives back the parsed list, in the
  same order, whenever the list holds only bare flags and string-valued pairs whose keys
  are not empty and have no digit among their first two characters.
\<close>

theorem storage_parameters_round_trip:
  assumes "parse_storage_parameters s = Inr ps" and "\<forall>p \<in> set ps. plain_param p"
  shows "\<exists>body. format_storage_parameters_clause float_repr (Some ps) = '' WITH ('' @ body @ '')'' \<and>
                parse_storage_parameters body = Inr ps"
proof -
  note wf = parse_storage_parameters_wf[OF assms(1)]
  have "format_storage_parameters_clause float_repr (Some ps) =
        '' WITH ('' @ join '', '' (map (render_param float_repr) ps) @ '')''"
    using wf(1) by (simp add: format_storage_parameters_clause_def)
  moreover have "parse_storage_parameters (join '', '' (map (render_param float_repr) ps)) = Inr ps"
    using wf assms(2) by (intro parse_rendered) auto
  ultimately show ?thesis by blast
qed

theorem storage_parameters_round_trip_witness:
  "parse_storage_parameters ''toast.compression = lz4 ,timescaledb.continuous'' =
     Inr [Pair ''toast.compression'' (VStr ''lz4''), Flag ''timescaledb.continuous''] \<and>
   plain_param (Pair ''toast.compression'' (VStr ''lz4'')) \<and>
   plain_param (Flag ''timescaledb.continuous'') \<and>
   (\<exists>body.
      format_storage_parameters_clause no_floats
        (Some [Pair ''toast.compression'' (VStr ''lz4''), Flag ''timescaledb.continuous'']) =
        '' WITH ('' @ body @ '')'' \<and>
      parse_storage_parameters body =
        Inr [Pair ''toast.compression'' (VStr ''lz4''), Flag ''timescaledb.continuous''])"
proof -
  have p: "parse_storage_parameters ''toast.compression = lz4 ,timescaledb.continuous'' =
     Inr [Pair ''toast.compression'' (VStr ''lz4''), Flag ''timescaledb.continuous'']"
    by (simp add: parse_eval)
  have q: "\<forall>p \<in> set [Pair ''toast.compression'' (VStr ''lz4''), Flag ''timescaledb.continuous''].
      plain_param p"
    by (simp add: is_digit_def)
  have r: "plain_param (Pair ''toast.compression'' (VStr ''lz4'')) \<and>
           plain_param (Flag ''timescaledb.continuous'')"
    using q by simp
  show ?thesis
    using p r storage_parameters_round_trip[OF p q, of no_floats] by blast
qed

text \<open>
  C3, as stated, fails: the formatter returns the clause with its \<open>WITH\<close> wrapper, so
  parsing what it returns gives one flag that holds the wrapper too.
\<close>

theorem round_trip_through_whole_clause_fails:
  "parse_storage_parameters ''timescaledb.continuous'' = Inr [Flag ''timescaledb.continuous''] \<and>
   format_storage_parameters_clause no_floats (Some [Flag ''timescaledb.continuous'']) =
     '' WITH (timescaledb.continuous)'' \<and>
   parse_storage_parameters '' WITH (timescaledb.continuous)'' =
     Inr [Flag ''WITH (timescaledb.continuous)'']"
  by (simp add: parse_eval format_storage_parameters_clause_def)

end
